theory Spec2Isabelle
  imports Main "HOL-Library.Char_ord" "HOL-Library.List_Lexorder"
begin

section \<open>The SQLite-backed key-value store (storage/sqlite.ts)\<close>

text \<open>
  The store is one SQL table \<open>kv\<close> with primary key \<open>(ns, key)\<close>. The table is
  modelled as the list of its rows, every prepared statement of the class as a
  function on that list, and every method as a function that takes the table and
  the clock readings it makes (\<open>Date.now()\<close>) and returns its result together with
  the table it leaves behind. A thrown exception is the \<open>Inl\<close> of a sum.

  Text is a \<open>string\<close>: the bytes of its UTF-8 encoding, compared bytewise, which is
  SQLite's default \<open>BINARY\<close> collation and the order of \<open>ORDER BY key\<close>. Integers
  (\<open>version\<close>, epoch milliseconds, \<open>limit\<close>, \<open>ttl\<close>) are unbounded \<open>int\<close>s: the
  model covers calls whose numeric options are whole numbers and versions below
  \<open>2^53\<close>.
\<close>

subsection \<open>Types of storage/kv.ts\<close>

type_synonym buffer = string

record GetOptions =
  contentType :: "string option"

record SetOptions =
  ttl :: "int option"
  contentType :: "string option"
  cas :: "int option"

record ListOptions =
  limit :: "int option"
  cursor :: "string option"
  prefix :: "string option"

record ValueMetadata =
  version :: int
  expiresAt :: "int option"
  updatedAt :: int
  contentType :: string

text \<open>The value \<open>get\<close> hands back: the parsed JSON document, or the stored bytes as
  they are for every other content type.\<close>

datatype 'v stored = Parsed 'v | Raw buffer

record 'v GetResult =
  gr_value :: "'v stored"
  metadata :: ValueMetadata

record ListResult =
  keys :: "string list"
  cursor :: "string option"

text \<open>One row of table \<open>kv\<close>; \<open>expires_at = None\<close> is SQL \<open>NULL\<close>.\<close>

record row =
  ns :: string
  key :: string
  val :: buffer
  content_type :: string
  version :: int
  expires_at :: "int option"
  updated_at :: int

text \<open>
  What the methods throw: the three \<open>new Error("CAS failed: ...")\<close> of \<open>set\<close> (with
  the numbers their messages carry), the \<open>TypeError\<close> of \<open>Buffer.from(undefined)\<close> and
  of a \<open>JSON.stringify\<close> that throws, the \<open>SyntaxError\<close> of \<open>JSON.parse\<close>, and the
  driver's refusal to bind a parameter to the \<open>BLOB NOT NULL\<close> column.
\<close>

datatype error =
    CasKeyDoesNotExist int
  | CasVersionMismatch int int
  | CasConcurrentUpdate
  | TypeError
  | SyntaxError
  | BindError

text \<open>
  The functions of the JavaScript runtime that the class calls and the repository
  does not define, taken as parameters over the type \<open>'v\<close> of JavaScript values:
  \<^item> \<open>JSON_stringify v\<close> is \<open>JSON.stringify(v)\<close> as UTF-8 text, \<open>None\<close> where it
    returns \<open>undefined\<close> or throws;
  \<^item> \<open>JSON_parse s\<close> is \<open>JSON.parse(s)\<close>, \<open>None\<close> where it throws;
  \<^item> \<open>bind_value v\<close> is the bytes the driver stores when \<open>v\<close> is bound as it is
    (\<open>value as Buffer\<close>), \<open>None\<close> where the driver refuses the parameter;
  \<^item> \<open>toBase64 s\<close> is \<open>Buffer.from(s).toString('base64')\<close>;
  \<^item> \<open>fromBase64 c\<close> is \<open>Buffer.from(c, 'base64').toString('utf-8')\<close>, which
    returns a string for every input.
\<close>

record 'v runtime =
  JSON_stringify :: "'v \<Rightarrow> string option"
  JSON_parse :: "string \<Rightarrow> 'v option"
  bind_value :: "'v \<Rightarrow> buffer option"
  toBase64 :: "string \<Rightarrow> string"
  fromBase64 :: "string \<Rightarrow> string"

subsection \<open>The prepared statements\<close>

text \<open>\<open>ns = ? AND key = ?\<close>\<close>

definition at_key :: "string \<Rightarrow> string \<Rightarrow> row \<Rightarrow> bool" where
  "at_key n k r = (ns r = n \<and> key r = k)"

text \<open>\<open>expires_at IS NOT NULL AND expires_at <= ?\<close>\<close>

definition expired :: "int \<Rightarrow> row \<Rightarrow> bool" where
  "expired now r = (case expires_at r of None \<Rightarrow> False | Some e \<Rightarrow> e \<le> now)"

text \<open>\<open>DELETE FROM kv WHERE ns = ? AND key = ? AND expires_at IS NOT NULL AND expires_at <= ?\<close>\<close>

definition cleanupExpired :: "row list \<Rightarrow> int \<Rightarrow> string \<Rightarrow> string \<Rightarrow> row list" where
  "cleanupExpired db now n k = filter (\<lambda>r. \<not> (at_key n k r \<and> expired now r)) db"

text \<open>\<open>SELECT value, content_type, version, expires_at, updated_at FROM kv WHERE ns = ? AND key = ?\<close>,
  read with \<open>.get\<close>: the first row, if any.\<close>

definition select_row :: "row list \<Rightarrow> string \<Rightarrow> string \<Rightarrow> row option" where
  "select_row db n k = find (at_key n k) db"

text \<open>\<open>UPDATE kv SET value = ?, content_type = ?, version = version + 1, expires_at = ?,
  updated_at = ? WHERE ns = ? AND key = ? AND version = ?\<close>, with \<open>info.changes\<close>.\<close>

definition set_columns :: "buffer \<Rightarrow> string \<Rightarrow> int option \<Rightarrow> int \<Rightarrow> row \<Rightarrow> row" where
  "set_columns b ct e now r =
     r\<lparr>val := b, content_type := ct, version := version r + 1, expires_at := e, updated_at := now\<rparr>"

definition update_cas ::
  "row list \<Rightarrow> buffer option \<Rightarrow> string \<Rightarrow> int option \<Rightarrow> int \<Rightarrow> string \<Rightarrow> string \<Rightarrow> int
     \<Rightarrow> error + nat \<times> row list" where
  "update_cas db serialized ct e now n k c =
     (case serialized of
        None \<Rightarrow> Inl BindError
      | Some b \<Rightarrow>
          Inr (length (filter (\<lambda>r. at_key n k r \<and> version r = c) db),
               map (\<lambda>r. if at_key n k r \<and> version r = c
                         then set_columns b ct e now r else r) db))"

text \<open>\<open>INSERT INTO kv (...) VALUES (?, ?, ?, ?, 1, ?, ?) ON CONFLICT(ns, key) DO UPDATE SET
  value = excluded.value, content_type = excluded.content_type, version = version + 1,
  expires_at = excluded.expires_at, updated_at = excluded.updated_at RETURNING version\<close>\<close>

definition upsert ::
  "row list \<Rightarrow> string \<Rightarrow> string \<Rightarrow> buffer option \<Rightarrow> string \<Rightarrow> int option \<Rightarrow> int
     \<Rightarrow> error + int \<times> row list" where
  "upsert db n k serialized ct e now =
     (case serialized of
        None \<Rightarrow> Inl BindError
      | Some b \<Rightarrow>
          (case select_row db n k of
             None \<Rightarrow>
               Inr (1, db @ [\<lparr>ns = n, key = k, val = b, content_type = ct, version = 1,
                              expires_at = e, updated_at = now\<rparr>])
           | Some r0 \<Rightarrow>
               Inr (version r0 + 1,
                    map (\<lambda>r. if at_key n k r then set_columns b ct e now r else r) db)))"

text \<open>
  SQLite's \<open>LIKE\<close> (\<open>patternCompare\<close> with the \<open>LIKE\<close> settings, pattern first). Both
  operands are read as C strings of UTF-8 bytes, so each ends at its first zero
  byte. \<open>%\<close> matches any run of characters and \<open>_\<close> any one character, a
  character being a lead byte with the continuation bytes (\<open>0x80\<close> to \<open>0xBF\<close>)
  that follow a lead byte of \<open>0xC0\<close> or more; every other byte of the pattern
  matches itself, ASCII letters without regard to case. The statement gives no
  \<open>ESCAPE\<close> character.
\<close>

definition ascii_lower :: "char \<Rightarrow> char" where
  "ascii_lower c =
     (if CHR ''A'' \<le> c \<and> c \<le> CHR ''Z'' then char_of (of_char c + (32::nat)) else c)"

definition utf8_continuation :: "char \<Rightarrow> bool" where
  "utf8_continuation c = (128 \<le> (of_char c :: nat) \<and> (of_char c :: nat) < 192)"

text \<open>What follows the character that starts with byte \<open>c\<close> (\<open>SQLITE_SKIP_UTF8\<close>).\<close>

definition utf8_rest :: "char \<Rightarrow> string \<Rightarrow> string" where
  "utf8_rest c cs = (if 192 \<le> (of_char c :: nat) then dropWhile utf8_continuation cs else cs)"

function like_match :: "string \<Rightarrow> string \<Rightarrow> bool" where
  "like_match [] [] = True"
| "like_match [] (c # cs) = False"
| "like_match (p # ps) [] = (p = CHR ''%'' \<and> like_match ps [])"
| "like_match (p # ps) (c # cs) =
     (if p = CHR ''%'' then like_match ps (c # cs) \<or> like_match (p # ps) (utf8_rest c cs)
      else if p = CHR ''_'' then like_match ps (utf8_rest c cs)
      else ascii_lower p = ascii_lower c \<and> like_match ps cs)"
  by pat_completeness auto

termination like_match
  by (relation "measure (\<lambda>(p, s). length p + length s)")
     (auto simp: utf8_rest_def intro!: le_imp_less_Suc le_SucI length_dropWhile_le)

text \<open>A text value as \<open>sqlite3_value_text\<close> hands it to \<open>LIKE\<close>: up to its first zero
  byte.\<close>

definition c_string :: "string \<Rightarrow> string" where
  "c_string s = takeWhile (\<lambda>c. c \<noteq> CHR 0x00) s"

definition sql_like :: "string \<Rightarrow> string \<Rightarrow> bool" where
  "sql_like p s = like_match (c_string p) (c_string s)"

text \<open>\<open>LIMIT ?\<close>: a negative bound is no bound.\<close>

definition sql_limit :: "int \<Rightarrow> 'a list \<Rightarrow> 'a list" where
  "sql_limit m xs = (if m < 0 then xs else take (nat m) xs)"

text \<open>\<open>rows.slice(0, end)\<close>: a negative \<open>end\<close> counts from the end of the array.\<close>

definition js_slice0 :: "'a list \<Rightarrow> int \<Rightarrow> 'a list" where
  "js_slice0 xs e = (if e < 0 then take (nat (int (length xs) + e)) xs else take (nat e) xs)"

text \<open>
  The statement \<open>list\<close> builds. The inner query is
  \<open>SELECT key FROM kv WHERE ns = ? [AND key LIKE ?] [AND key > ?] ORDER BY key LIMIT ?\<close>;
  the outer one keeps a row of it where
  \<open>NOT EXISTS (SELECT 1 FROM kv WHERE ns = ? AND key = kv.key AND expires_at IS NOT NULL
  AND expires_at <= ?)\<close>. Inside that subquery both \<open>key\<close> and \<open>kv.key\<close> name the column
  of the subquery's own \<open>kv\<close> (SQL resolves a name in the innermost scope that has it,
  and the outer \<open>FROM\<close> is an unnamed derived table), so the comparison is between a
  row's key and itself.
\<close>

definition list_query ::
  "row list \<Rightarrow> int \<Rightarrow> string \<Rightarrow> string option \<Rightarrow> string \<Rightarrow> int \<Rightarrow> string list" where
  "list_query db now n pre startKey lim =
     (let rows0 = filter (\<lambda>r. ns r = n) db;
          rows1 = (case pre of
                     None \<Rightarrow> rows0
                   | Some p \<Rightarrow> if p = [] then rows0
                               else filter (\<lambda>r. sql_like (p @ ''%'') (key r)) rows0);
          rows2 = (if startKey = [] then rows1 else filter (\<lambda>r. startKey < key r) rows1);
          inner = sql_limit (lim + 1) (sort (map key rows2))
      in filter (\<lambda>outer_key.
                   \<not> list_ex (\<lambda>r. ns r = n \<and> key r = key r \<and> expired now r) db) inner)"

subsection \<open>The methods\<close>

definition meta :: "row \<Rightarrow> ValueMetadata" where
  "meta r = \<lparr>ValueMetadata.version = version r, expiresAt = expires_at r,
             updatedAt = updated_at r, contentType = content_type r\<rparr>"

definition get ::
  "'v runtime \<Rightarrow> row list \<Rightarrow> int \<Rightarrow> string \<Rightarrow> string \<Rightarrow> GetOptions
     \<Rightarrow> (error + 'v GetResult option) \<times> row list" where
  "get rt db now n k options =
     (let db1 = cleanupExpired db now n k in
      case select_row db1 n k of
        None \<Rightarrow> (Inr None, db1)
      | Some r \<Rightarrow>
          if (case GetOptions.contentType options of
                None \<Rightarrow> False
              | Some ct \<Rightarrow> ct \<noteq> [] \<and> content_type r \<noteq> ct)
          then (Inr None, db1)
          else if content_type r = ''application/json''
          then (case JSON_parse rt (val r) of
                  None \<Rightarrow> (Inl SyntaxError, db1)
                | Some v \<Rightarrow> (Inr (Some \<lparr>gr_value = Parsed v, metadata = meta r\<rparr>), db1))
          else (Inr (Some \<lparr>gr_value = Raw (val r), metadata = meta r\<rparr>), db1))"

text \<open>Lines 139-145 of \<open>set\<close>: the JSON text, or the value as it is, which the driver
  accepts or refuses only when a statement binds it.\<close>

definition serialize :: "'v runtime \<Rightarrow> string \<Rightarrow> 'v \<Rightarrow> error + buffer option" where
  "serialize rt ct v =
     (if ct = ''application/json''
      then (case JSON_stringify rt v of None \<Rightarrow> Inl TypeError | Some s \<Rightarrow> Inr (Some s))
      else Inr (bind_value rt v))"

text \<open>\<open>const { ttl, contentType = 'application/json', cas } = options || {}\<close> and
  \<open>const expiresAt = ttl ? now + ttl * 1000 : null\<close>.\<close>

definition contentType_of :: "SetOptions \<Rightarrow> string" where
  "contentType_of options =
     (case SetOptions.contentType options of None \<Rightarrow> ''application/json'' | Some c \<Rightarrow> c)"

definition expiresAt_of :: "int \<Rightarrow> SetOptions \<Rightarrow> int option" where
  "expiresAt_of now options =
     (case ttl options of
        None \<Rightarrow> None
      | Some t \<Rightarrow> if t = 0 then None else Some (now + t * 1000))"

text \<open>\<open>set\<close> reads the clock itself (\<open>now\<close>), and once more inside the \<open>get\<close> of its CAS
  branch (\<open>now_get\<close>).\<close>

definition set_kv ::
  "'v runtime \<Rightarrow> row list \<Rightarrow> int \<Rightarrow> int \<Rightarrow> string \<Rightarrow> string \<Rightarrow> 'v \<Rightarrow> SetOptions
     \<Rightarrow> (error + int) \<times> row list" where
  "set_kv rt db now now_get n k v options =
     (let ct = contentType_of options;
          e = expiresAt_of now options
      in case serialize rt ct v of
           Inl err \<Rightarrow> (Inl err, db)
         | Inr serialized \<Rightarrow>
             (case cas options of
                Some c \<Rightarrow>
                  (case get rt db now_get n k \<lparr>GetOptions.contentType = None\<rparr> of
                     (Inl err, db1) \<Rightarrow> (Inl err, db1)
                   | (Inr None, db1) \<Rightarrow> (Inl (CasKeyDoesNotExist c), db1)
                   | (Inr (Some current), db1) \<Rightarrow>
                       if ValueMetadata.version (metadata current) \<noteq> c
                       then (Inl (CasVersionMismatch c (ValueMetadata.version (metadata current))),
                             db1)
                       else (case update_cas db1 serialized ct e now n k c of
                               Inl err \<Rightarrow> (Inl err, db1)
                             | Inr (changes, db2) \<Rightarrow>
                                 if changes = 0 then (Inl CasConcurrentUpdate, db2)
                                 else (Inr (c + 1), db2)))
              | None \<Rightarrow>
                  (case upsert db n k serialized ct e now of
                     Inl err \<Rightarrow> (Inl err, db)
                   | Inr (ver, db1) \<Rightarrow> (Inr ver, db1))))"

text \<open>\<open>DELETE FROM kv WHERE ns = ? AND key = ?\<close>, returning \<open>info.changes > 0\<close>.\<close>

definition delete :: "row list \<Rightarrow> string \<Rightarrow> string \<Rightarrow> bool \<times> row list" where
  "delete db n k =
     (0 < length (filter (at_key n k) db),
      filter (\<lambda>r. \<not> at_key n k r) db)"

text \<open>\<open>const { limit = 100, cursor, prefix } = options || {}\<close> and
  \<open>const startKey = cursor ? Buffer.from(cursor, 'base64').toString('utf-8') : ''\<close>.\<close>

definition limit_of :: "ListOptions \<Rightarrow> int" where
  "limit_of options = (case limit options of None \<Rightarrow> 100 | Some l \<Rightarrow> l)"

definition startKey_of :: "'v runtime \<Rightarrow> ListOptions \<Rightarrow> string" where
  "startKey_of rt options =
     (case ListOptions.cursor options of
        None \<Rightarrow> []
      | Some c \<Rightarrow> if c = [] then [] else fromBase64 rt c)"

definition list :: "'v runtime \<Rightarrow> row list \<Rightarrow> int \<Rightarrow> string \<Rightarrow> ListOptions \<Rightarrow> error + ListResult" where
  "list rt db now n options =
     (let lim = limit_of options;
          startKey = startKey_of rt options;
          rows = list_query db now n (prefix options) startKey lim;
          hasMore = (lim < int (length rows));
          ks = (if hasMore then js_slice0 rows lim else rows)
      in if hasMore
         then (case ks of
                 [] \<Rightarrow> Inl TypeError
               | _ # _ \<Rightarrow> Inr \<lparr>keys = ks, cursor = Some (toBase64 rt (last ks))\<rparr>)
         else Inr \<lparr>keys = ks, cursor = None\<rparr>)"

text \<open>\<open>DELETE FROM kv WHERE expires_at IS NOT NULL AND expires_at <= ?\<close>, returning
  \<open>info.changes\<close>.\<close>

definition cleanupAllExpired :: "row list \<Rightarrow> int \<Rightarrow> nat \<times> row list" where
  "cleanupAllExpired db now =
     (length (filter (expired now) db), filter (\<lambda>r. \<not> expired now r) db)"

text \<open>The table's \<open>PRIMARY KEY (ns, key)\<close>: no two rows share both.\<close>

definition pk_unique :: "row list \<Rightarrow> bool" where
  "pk_unique db = distinct (map (\<lambda>r. (ns r, key r)) db)"

section \<open>The caller's pagination loop\<close>

text \<open>
  The loop of a caller that reads a namespace page by page: \<open>list\<close> with no cursor,
  then with each cursor it returns, until it returns none; the keys of all pages
  in order. The loop is bounded by \<open>fuel\<close> calls: \<open>None\<close> means that the bound was
  reached with a cursor still pending.
\<close>

fun paginate ::
  "'v runtime \<Rightarrow> row list \<Rightarrow> int \<Rightarrow> string \<Rightarrow> int option \<Rightarrow> string option \<Rightarrow> nat
     \<Rightarrow> string option \<Rightarrow> (error + string list) option" where
  "paginate rt db now n lim pre 0 c = None"
| "paginate rt db now n lim pre (Suc fuel) c =
     (case list rt db now n \<lparr>limit = lim, cursor = c, prefix = pre\<rparr> of
        Inl err \<Rightarrow> Some (Inl err)
      | Inr page \<Rightarrow>
          (case ListResult.cursor page of
             None \<Rightarrow> Some (Inr (keys page))
           | Some c' \<Rightarrow>
               (case paginate rt db now n lim pre fuel (Some c') of
                  Some (Inr ks) \<Rightarrow> Some (Inr (keys page @ ks))
                | other \<Rightarrow> other)))"

section \<open>A runtime for closed examples\<close>

text \<open>
  JavaScript values restricted to \<open>undefined\<close>, \<open>null\<close> and the booleans, with their
  JSON texts; the driver binds none of them to a \<open>BLOB NOT NULL\<close> column. Base64 is
  the standard alphabet with padding; decoding is Node's lenient one, which skips
  every character outside the alphabet (\<open>-\<close> and \<open>_\<close> count as \<open>+\<close> and \<open>/\<close>), stops
  at the first \<open>=\<close> and drops an incomplete last group. Bytes are read back as text
  one to one, which is exact where they are well-formed UTF-8.
\<close>

datatype jsvalue = JUndefined | JNull | JBool bool

definition node_stringify :: "jsvalue \<Rightarrow> string option" where
  "node_stringify v =
     (case v of
        JUndefined \<Rightarrow> None
      | JNull \<Rightarrow> Some ''null''
      | JBool b \<Rightarrow> Some (if b then ''true'' else ''false''))"

definition node_parse :: "string \<Rightarrow> jsvalue option" where
  "node_parse s =
     (if s = ''null'' then Some JNull
      else if s = ''true'' then Some (JBool True)
      else if s = ''false'' then Some (JBool False)
      else None)"

definition b64_alphabet :: string where
  "b64_alphabet = ''ABCDEFGHIJKLMNOPQRSTUVWXYZabcdefghijklmnopqrstuvwxyz0123456789+/''"

definition b64_char :: "nat \<Rightarrow> char" where
  "b64_char i = b64_alphabet ! i"

fun b64_encode :: "nat list \<Rightarrow> string" where
  "b64_encode (a # b # c # rest) =
     [b64_char (a div 4), b64_char ((a mod 4) * 16 + b div 16),
      b64_char ((b mod 16) * 4 + c div 64), b64_char (c mod 64)] @ b64_encode rest"
| "b64_encode [a, b] =
     [b64_char (a div 4), b64_char ((a mod 4) * 16 + b div 16),
      b64_char ((b mod 16) * 4), CHR ''='']"
| "b64_encode [a] = [b64_char (a div 4), b64_char ((a mod 4) * 16), CHR ''='', CHR ''='']"
| "b64_encode [] = []"

definition b64_value :: "char \<Rightarrow> nat option" where
  "b64_value c =
     (if c = CHR ''-'' then Some 62
      else if c = CHR ''_'' then Some 63
      else map_of (zip b64_alphabet [0..<64]) c)"

fun b64_group :: "nat list \<Rightarrow> nat list" where
  "b64_group (w # x # y # z # rest) =
     [w * 4 + x div 16, (x mod 16) * 16 + y div 4, (y mod 4) * 64 + z] @ b64_group rest"
| "b64_group [w, x, y] = [w * 4 + x div 16, (x mod 16) * 16 + y div 4]"
| "b64_group [w, x] = [w * 4 + x div 16]"
| "b64_group [w] = []"
| "b64_group [] = []"

definition b64_decode :: "string \<Rightarrow> nat list" where
  "b64_decode s = b64_group (List.map_filter b64_value (takeWhile (\<lambda>c. c \<noteq> CHR ''='') s))"

definition node_toBase64 :: "string \<Rightarrow> string" where
  "node_toBase64 s = b64_encode (map of_char s)"

definition node_fromBase64 :: "string \<Rightarrow> string" where
  "node_fromBase64 c = map char_of (b64_decode c)"

definition node :: "jsvalue runtime" where
  "node = \<lparr>JSON_stringify = node_stringify, JSON_parse = node_parse,
            bind_value = (\<lambda>v. None), toBase64 = node_toBase64,
            fromBase64 = node_fromBase64\<rparr>"

section \<open>Notions the properties are stated with\<close>

text \<open>The stored value of a row can be read back: \<open>JSON.parse\<close> accepts the bytes of a
  row tagged \<open>application/json\<close> (the bytes of any other row are returned as they are).\<close>

definition readable :: "'v runtime \<Rightarrow> row \<Rightarrow> bool" where
  "readable rt r = (content_type r = ''application/json'' \<longrightarrow> JSON_parse rt (val r) \<noteq> None)"

text \<open>The version of the row stored for a key, \<open>0\<close> when there is none.\<close>

definition stored_version :: "row list \<Rightarrow> string \<Rightarrow> string \<Rightarrow> int" where
  "stored_version db n k = (case select_row db n k of None \<Rightarrow> 0 | Some r \<Rightarrow> version r)"

text \<open>\<open>set\<close> can store the value: it serialises, and the driver binds it.\<close>

definition storable :: "'v runtime \<Rightarrow> 'v \<Rightarrow> SetOptions \<Rightarrow> bool" where
  "storable rt v options = (\<exists>b. serialize rt (contentType_of options) v = Inr (Some b))"

subsection \<open>Runs of calls\<close>

text \<open>
  A call of one of the store's methods, and what it returns. A run is a list of
  calls, each with the instant at which it reads the clock (a \<open>set\<close> makes both its
  readings at that instant), carried out one after the other on the table the
  previous call left.
\<close>

datatype 'v call =
    Get string string GetOptions
  | Set string string 'v SetOptions
  | Delete string string
  | List string ListOptions
  | CleanupAllExpired

datatype 'v outcome =
    GetOut "error + 'v GetResult option"
  | SetOut "error + int"
  | DeleteOut bool
  | ListOut "error + ListResult"
  | CleanupOut nat

fun run_call :: "'v runtime \<Rightarrow> row list \<Rightarrow> int \<Rightarrow> 'v call \<Rightarrow> 'v outcome \<times> row list" where
  "run_call rt db now (Get n k options) =
     (case get rt db now n k options of (res, db1) \<Rightarrow> (GetOut res, db1))"
| "run_call rt db now (Set n k v options) =
     (case set_kv rt db now now n k v options of (res, db1) \<Rightarrow> (SetOut res, db1))"
| "run_call rt db now (Delete n k) =
     (case delete db n k of (res, db1) \<Rightarrow> (DeleteOut res, db1))"
| "run_call rt db now (List n options) = (ListOut (list rt db now n options), db)"
| "run_call rt db now CleanupAllExpired =
     (case cleanupAllExpired db now of (c, db1) \<Rightarrow> (CleanupOut c, db1))"

text \<open>The call is a \<open>set\<close> on the key.\<close>

definition sets_key :: "string \<Rightarrow> string \<Rightarrow> 'v call \<Rightarrow> bool" where
  "sets_key n k c = (case c of Set n' k' v options \<Rightarrow> n' = n \<and> k' = k | _ \<Rightarrow> False)"

text \<open>What the \<open>set\<close> calls on the key return in a run, in order.\<close>

fun set_results ::
  "'v runtime \<Rightarrow> row list \<Rightarrow> string \<Rightarrow> string \<Rightarrow> (int \<times> 'v call) list \<Rightarrow> 'v outcome list" where
  "set_results rt db n k [] = []"
| "set_results rt db n k ((now, c) # cs) =
     (case run_call rt db now c of
        (out, db1) \<Rightarrow>
          (if sets_key n k c then out # set_results rt db1 n k cs
           else set_results rt db1 n k cs))"

text \<open>No call of the run removes the key's row: a row stored before a call is
  stored after it.\<close>

fun keeps_row :: "'v runtime \<Rightarrow> row list \<Rightarrow> string \<Rightarrow> string \<Rightarrow> (int \<times> 'v call) list \<Rightarrow> bool" where
  "keeps_row rt db n k [] = True"
| "keeps_row rt db n k ((now, c) # cs) =
     ((select_row db n k = None \<or> select_row (snd (run_call rt db now c)) n k \<noteq> None) \<and>
      keeps_row rt (snd (run_call rt db now c)) n k cs)"

text \<open>If the call is a \<open>set\<close> on the key, it has no \<open>cas\<close> and a value \<open>set\<close> can
  store.\<close>

definition plain_set :: "'v runtime \<Rightarrow> string \<Rightarrow> string \<Rightarrow> 'v call \<Rightarrow> bool" where
  "plain_set rt n k c =
     (case c of
        Set n' k' v options \<Rightarrow> n' = n \<and> k' = k \<longrightarrow> cas options = None \<and> storable rt v options
      | _ \<Rightarrow> True)"

text \<open>\<open>s\<close> starts with \<open>p\<close>.\<close>

definition starts_with :: "string \<Rightarrow> string \<Rightarrow> bool" where
  "starts_with p s = (take (length p) s = p)"

text \<open>
  What the statement of \<open>list\<close> selects. A row passes the filters when it is in the
  namespace, its key matches the \<open>LIKE\<close> pattern (if a prefix is given) and lies
  after the start key (if one is given); the matching keys are those of the rows
  that pass, in ascending order. The \<open>NOT EXISTS\<close> subquery holds for no row when
  any row of the namespace is expired, so a row matches the whole query when it
  passes the filters and no row of its namespace is expired.
\<close>

definition matches_filters :: "string \<Rightarrow> string option \<Rightarrow> string \<Rightarrow> row \<Rightarrow> bool" where
  "matches_filters n pre startKey r =
     (ns r = n \<and>
      (case pre of None \<Rightarrow> True | Some p \<Rightarrow> p = [] \<or> sql_like (p @ ''%'') (key r)) \<and>
      (startKey = [] \<or> startKey < key r))"

definition matching_keys :: "row list \<Rightarrow> string \<Rightarrow> string option \<Rightarrow> string \<Rightarrow> string list" where
  "matching_keys db n pre startKey = sort (map key (filter (matches_filters n pre startKey) db))"

definition any_expired :: "row list \<Rightarrow> int \<Rightarrow> string \<Rightarrow> bool" where
  "any_expired db now n = (\<exists>r\<in>set db. ns r = n \<and> expired now r)"


text \<open>A row of namespace \<open>builds\<close> for the examples: its key, version and expiry.\<close>

definition entry :: "string \<Rightarrow> int \<Rightarrow> int option \<Rightarrow> row" where
  "entry k ver e =
     \<lparr>ns = ''builds'', key = k, val = ''true'', content_type = ''application/json'',
      version = ver, expires_at = e, updated_at = 0\<rparr>"

definition no_get_options :: GetOptions where
  "no_get_options = \<lparr>GetOptions.contentType = None\<rparr>"

definition no_set_options :: SetOptions where
  "no_set_options = \<lparr>ttl = None, contentType = None, cas = None\<rparr>"

definition no_list_options :: ListOptions where
  "no_list_options = \<lparr>limit = None, cursor = None, prefix = None\<rparr>"

text \<open>A run for the examples: three \<open>set\<close> calls on one key among calls that leave its
  row in place.\<close>

definition example_run :: "(int \<times> jsvalue call) list" where
  "example_run =
     [(100, Set ''builds'' ''u1:active'' (JBool True) no_set_options),
      (150, Get ''builds'' ''u1:active'' no_get_options),
      (200, Set ''builds'' ''u2:active'' JNull (no_set_options\<lparr>cas := Some 7\<rparr>)),
      (250, List ''builds'' no_list_options),
      (300, Set ''builds'' ''u1:active'' (JBool False) (no_set_options\<lparr>ttl := Some 60\<rparr>)),
      (400, CleanupAllExpired),
      (450, Delete ''builds'' ''u2:active''),
      (500, Set ''builds'' ''u1:active'' JNull no_set_options)]"

section \<open>Properties\<close>

text \<open>The definitions behind the examples.\<close>

lemmas example_defs = entry_def no_set_options_def no_get_options_def no_list_options_def
  node_def node_stringify_def node_parse_def

subsection \<open>Rows, keys and the primary key\<close>

lemma select_row_None_iff:
  "select_row db n k = None \<longleftrightarrow> (\<forall>r\<in>set db. \<not> at_key n k r)"
  by (auto simp: select_row_def find_None_iff)

lemma select_row_SomeD:
  "select_row db n k = Some r \<Longrightarrow> r \<in> set db \<and> at_key n k r"
  by (auto simp: select_row_def find_Some_iff)

lemma pk_unique_same:
  "pk_unique db \<Longrightarrow> r \<in> set db \<Longrightarrow> r' \<in> set db \<Longrightarrow> at_key n k r \<Longrightarrow> at_key n k r' \<Longrightarrow> r' = r"
  unfolding pk_unique_def at_key_def
  by (metis (mono_tags, lifting) distinct_map inj_onD)

lemma select_row_member:
  assumes "pk_unique db" "r \<in> set db" "at_key n k r"
  shows "select_row db n k = Some r"
proof (cases "select_row db n k")
  case None
  with assms(2,3) show ?thesis by (auto simp: select_row_None_iff)
next
  case (Some r')
  then have "r' \<in> set db" "at_key n k r'"
    using select_row_SomeD by blast+
  with assms have "r' = r" using pk_unique_same by blast
  with Some show ?thesis by simp
qed

lemma filter_all: "(\<And>x. x \<in> set xs \<Longrightarrow> P x) \<Longrightarrow> filter P xs = xs"
  by (induction xs) auto

lemma pk_unique_filter: "pk_unique db \<Longrightarrow> pk_unique (filter P db)"
  unfolding pk_unique_def by (simp add: distinct_map_filter)

lemma select_row_filter_pk:
  "select_row (filter (\<lambda>x. \<not> at_key n k x) db) n k = None"
  by (auto simp: select_row_None_iff)

lemma select_row_filter_other:
  "(n', k') \<noteq> (n, k) \<Longrightarrow>
   select_row (filter (\<lambda>x. \<not> at_key n k x) db) n' k' = select_row db n' k'"
  unfolding select_row_def at_key_def by (induction db) auto

subsection \<open>The lazy cleanup of \<open>get\<close>\<close>

lemma cleanupExpired_absent:
  "select_row db n k = None \<Longrightarrow> cleanupExpired db now n k = db"
  unfolding cleanupExpired_def
  by (rule filter_all) (auto simp: select_row_None_iff)

lemma cleanupExpired_live:
  assumes "pk_unique db" "select_row db n k = Some r" "\<not> expired now r"
  shows "cleanupExpired db now n k = db"
  unfolding cleanupExpired_def
proof (rule filter_all)
  fix x assume x: "x \<in> set db"
  from assms(2) have r: "r \<in> set db" "at_key n k r"
    using select_row_SomeD by blast+
  show "\<not> (at_key n k x \<and> expired now x)"
  proof
    assume a: "at_key n k x \<and> expired now x"
    then have "x = r" using pk_unique_same[OF assms(1) r(1) x r(2)] by simp
    with a assms(3) show False by simp
  qed
qed

lemma cleanupExpired_expired:
  assumes "pk_unique db" "select_row db n k = Some r" "expired now r"
  shows "cleanupExpired db now n k = filter (\<lambda>x. \<not> at_key n k x) db"
  unfolding cleanupExpired_def
proof (rule filter_cong[OF refl])
  fix x assume x: "x \<in> set db"
  from assms(2) have r: "r \<in> set db" "at_key n k r"
    using select_row_SomeD by blast+
  show "(\<not> (at_key n k x \<and> expired now x)) = (\<not> at_key n k x)"
  proof (cases "at_key n k x")
    case True
    then have "x = r" using pk_unique_same[OF assms(1) r(1) x r(2)] by simp
    with True assms(3) show ?thesis by simp
  next
    case False then show ?thesis by simp
  qed
qed

lemma get_no_row:
  "select_row (cleanupExpired db now n k) n k = None \<Longrightarrow>
   get rt db now n k options = (Inr None, cleanupExpired db now n k)"
  by (simp add: get_def)

subsection \<open>The expiry boundary\<close>

text \<open>Removing one row: what it does to a \<open>DELETE\<close> and to its count.\<close>

lemma pk_unique_distinct: "pk_unique db \<Longrightarrow> distinct db"
  unfolding pk_unique_def by (simp add: distinct_map)

lemma filter_not_at_key_remove1:
  assumes "pk_unique db" "r \<in> set db" "at_key n k r"
  shows "filter (\<lambda>x. \<not> at_key n k x) db = remove1 r db"
proof -
  have "filter (\<lambda>x. \<not> at_key n k x) db = filter (\<lambda>x. r \<noteq> x) db"
  proof (rule filter_cong[OF refl])
    fix x assume "x \<in> set db"
    then show "(\<not> at_key n k x) = (r \<noteq> x)"
      using pk_unique_same[OF assms(1,2) _ assms(3), of x] assms(3) by auto
  qed
  also have "\<dots> = removeAll r db" by (simp add: removeAll_filter_not_eq)
  also have "\<dots> = remove1 r db"
    using pk_unique_distinct[OF assms(1)] by (simp add: distinct_remove1_removeAll)
  finally show ?thesis .
qed

lemma length_filter_remove1:
  "r \<in> set db \<Longrightarrow> P r \<Longrightarrow> length (filter P db) = Suc (length (filter P (remove1 r db)))"
  by (induction db) auto

lemma filter_not_remove1:
  "P r \<Longrightarrow> filter (\<lambda>x. \<not> P x) (remove1 r db) = filter (\<lambda>x. \<not> P x) db"
  by (induction db) auto

text \<open>
  C9. The expiration boundary is inclusive. A row whose \<open>expires_at\<close> equals the
  clock reading exactly is expired. \<open>get\<close> at that instant returns absent and its
  lazy cleanup deletes that row and no other. \<open>cleanupAllExpired\<close> at that instant
  counts the row and removes it: its count is one more than on the table without
  the row, it is the number of rows removed, and the table left behind is the one
  left behind without the row.
\<close>

theorem expiry_boundary_inclusive:
  assumes "pk_unique db" and "r \<in> set db" and "expires_at r = Some now"
  shows "expired now r \<and>
         fst (get rt db now (ns r) (key r) options) = Inr None \<and>
         r \<notin> set (snd (get rt db now (ns r) (key r) options)) \<and>
         snd (get rt db now (ns r) (key r) options) = remove1 r db \<and>
         0 < fst (cleanupAllExpired db now) \<and>
         fst (cleanupAllExpired db now) = Suc (fst (cleanupAllExpired (remove1 r db) now)) \<and>
         fst (cleanupAllExpired db now) = length db - length (snd (cleanupAllExpired db now)) \<and>
         snd (cleanupAllExpired db now) = snd (cleanupAllExpired (remove1 r db) now) \<and>
         r \<notin> set (snd (cleanupAllExpired db now))"
proof -
  have e: "expired now r" using assms(3) by (simp add: expired_def)
  have k: "at_key (ns r) (key r) r" by (simp add: at_key_def)
  have sel: "select_row db (ns r) (key r) = Some r"
    using assms(1,2) k by (rule select_row_member)
  have c: "cleanupExpired db now (ns r) (key r) = filter (\<lambda>x. \<not> at_key (ns r) (key r) x) db"
    using assms(1) sel e by (rule cleanupExpired_expired)
  have g: "get rt db now (ns r) (key r) options =
             (Inr None, filter (\<lambda>x. \<not> at_key (ns r) (key r) x) db)"
    using get_no_row[of db now "ns r" "key r" rt options] by (simp add: c select_row_filter_pk)
  have rm: "filter (\<lambda>x. \<not> at_key (ns r) (key r) x) db = remove1 r db"
    using assms(1,2) k by (rule filter_not_at_key_remove1)
  have "r \<in> set (filter (expired now) db)" using assms(2) e by simp
  then have pos: "0 < length (filter (expired now) db)" by (metis length_pos_if_in_set)
  have cnt: "length (filter (expired now) db) = Suc (length (filter (expired now) (remove1 r db)))"
    using assms(2) e by (rule length_filter_remove1)
  have rest: "filter (\<lambda>x. \<not> expired now x) (remove1 r db) = filter (\<lambda>x. \<not> expired now x) db"
    using e by (rule filter_not_remove1)
  have len: "length (filter (expired now) db) = length db - length (filter (\<lambda>x. \<not> expired now x) db)"
    using sum_length_filter_compl[of "expired now" db] by simp
  have a: "expired now r \<and>
         fst (get rt db now (ns r) (key r) options) = Inr None \<and>
         r \<notin> set (snd (get rt db now (ns r) (key r) options)) \<and>
         snd (get rt db now (ns r) (key r) options) = remove1 r db"
    using e g k rm[symmetric] by simp
  have b: "0 < fst (cleanupAllExpired db now) \<and>
         fst (cleanupAllExpired db now) = Suc (fst (cleanupAllExpired (remove1 r db) now)) \<and>
         fst (cleanupAllExpired db now) = length db - length (snd (cleanupAllExpired db now)) \<and>
         snd (cleanupAllExpired db now) = snd (cleanupAllExpired (remove1 r db) now) \<and>
         r \<notin> set (snd (cleanupAllExpired db now))"
    using pos cnt rest len e by (simp add: cleanupAllExpired_def)
  from a b show ?thesis by blast
qed

theorem expiry_boundary_inclusive_witness:
  "pk_unique [entry ''a'' 1 (Some 1000), entry ''b'' 2 (Some 500), entry ''c'' 1 (Some 1001)] \<and>
   entry ''a'' 1 (Some 1000)
     \<in> set [entry ''a'' 1 (Some 1000), entry ''b'' 2 (Some 500), entry ''c'' 1 (Some 1001)] \<and>
   expires_at (entry ''a'' 1 (Some 1000)) = Some 1000 \<and>
   expired 1000 (entry ''a'' 1 (Some 1000)) \<and>
   get node [entry ''a'' 1 (Some 1000), entry ''b'' 2 (Some 500), entry ''c'' 1 (Some 1001)] 1000
     ''builds'' ''a'' no_get_options =
     (Inr None, [entry ''b'' 2 (Some 500), entry ''c'' 1 (Some 1001)]) \<and>
   cleanupAllExpired [entry ''a'' 1 (Some 1000), entry ''b'' 2 (Some 500), entry ''c'' 1 (Some 1001)]
     1000 = (2, [entry ''c'' 1 (Some 1001)]) \<and>
   cleanupAllExpired [entry ''b'' 2 (Some 500), entry ''c'' 1 (Some 1001)] 1000 =
     (1, [entry ''c'' 1 (Some 1001)])"
proof -
  let ?a = "entry ''a'' 1 (Some 1000)" and ?b = "entry ''b'' 2 (Some 500)"
    and ?c = "entry ''c'' 1 (Some 1001)"
  have h: "pk_unique [?a, ?b, ?c]" "?a \<in> set [?a, ?b, ?c]" "expires_at ?a = Some 1000"
    by (simp_all add: pk_unique_def entry_def)
  have k: "ns ?a = ''builds''" "key ?a = ''a''" by (simp_all add: entry_def)
  have rm: "remove1 ?a [?a, ?b, ?c] = [?b, ?c]" by simp
  have ex: "expired 1000 ?b" "\<not> expired 1000 ?c"
    by (simp_all add: expired_def entry_def)
  have c1: "cleanupAllExpired [?b, ?c] 1000 = (1, [?c])"
    by (simp add: cleanupAllExpired_def ex)
  note t = expiry_boundary_inclusive[OF h, of node no_get_options]
  have e: "expired 1000 ?a" using t by blast
  have g: "get node [?a, ?b, ?c] 1000 ''builds'' ''a'' no_get_options = (Inr None, [?b, ?c])"
    using t by (simp add: k rm prod_eq_iff)
  have c2: "cleanupAllExpired [?a, ?b, ?c] 1000 = (2, [?c])"
    using t by (simp add: rm c1 prod_eq_iff)
  from h e g c1 c2 show ?thesis by blast
qed

subsection \<open>\<open>delete\<close>\<close>

lemma filter_at_key_empty_iff:
  "(filter (at_key n k) db = []) = (select_row db n k = None)"
  by (simp add: select_row_None_iff filter_empty_conv)

lemma changes_at_key:
  "(0 < length (filter (at_key n k) db)) = (select_row db n k \<noteq> None)"
  using filter_at_key_empty_iff[of n k db] by simp

text \<open>
  C5. \<open>delete\<close> returns true exactly when a row is stored for the key, whether
  that row is live or already expired, and removes it; it returns false, and
  leaves the table as it is, only when no row is stored. After \<open>delete\<close>, \<open>get\<close>
  on the key returns absent, and the rows of every other key are untouched.
\<close>

theorem delete_removes_stored_row:
  "fst (delete db n k) = (select_row db n k \<noteq> None) \<and>
   (select_row db n k = None \<longrightarrow> snd (delete db n k) = db) \<and>
   select_row (snd (delete db n k)) n k = None \<and>
   fst (get rt (snd (delete db n k)) now n k options) = Inr None \<and>
   (\<forall>n' k'. (n', k') \<noteq> (n, k) \<longrightarrow>
      select_row (snd (delete db n k)) n' k' = select_row db n' k')"
proof -
  have a: "fst (delete db n k) = (select_row db n k \<noteq> None)"
    by (simp only: delete_def fst_conv changes_at_key)
  have b: "select_row db n k = None \<longrightarrow> snd (delete db n k) = db"
    by (auto simp: delete_def select_row_None_iff intro: filter_all)
  have c: "select_row (snd (delete db n k)) n k = None"
    by (simp add: delete_def select_row_filter_pk)
  have d: "fst (get rt (snd (delete db n k)) now n k options) = Inr None"
    using c by (simp add: get_no_row cleanupExpired_absent)
  have e: "\<forall>n' k'. (n', k') \<noteq> (n, k) \<longrightarrow>
      select_row (snd (delete db n k)) n' k' = select_row db n' k'"
    by (simp add: delete_def select_row_filter_other)
  from a b c d e show ?thesis by blast
qed

text \<open>The claim as stated has \<open>delete\<close> return false on a key whose row is already
  expired. It returns true there, and the row is gone.\<close>

theorem delete_expired_counterexample:
  "expired 2000 (entry ''u1:active'' 1 (Some 1000)) \<and>
   delete [entry ''u1:active'' 1 (Some 1000)] ''builds'' ''u1:active'' = (True, [])"
  by (simp add: delete_def entry_def expired_def at_key_def)

theorem delete_removes_stored_row_witness:
  "fst (delete [entry ''a'' 1 None, entry ''b'' 4 (Some 1000)] ''builds'' ''b'') = True \<and>
   snd (delete [entry ''a'' 1 None, entry ''b'' 4 (Some 1000)] ''builds'' ''b'') = [entry ''a'' 1 None] \<and>
   select_row [entry ''a'' 1 None] ''builds'' ''b'' = None \<and>
   delete [entry ''a'' 1 None] ''builds'' ''b'' = (False, [entry ''a'' 1 None]) \<and>
   fst (get node [entry ''a'' 1 None] 500 ''builds'' ''b'' no_get_options) = Inr None \<and>
   select_row (snd (delete [entry ''a'' 1 None, entry ''b'' 4 (Some 1000)] ''builds'' ''b'')) ''builds'' ''a''
     = Some (entry ''a'' 1 None)"
proof -
  have s: "select_row [entry ''a'' 1 None] ''builds'' ''b'' = None"
    by (simp add: select_row_def entry_def at_key_def)
  have d: "snd (delete [entry ''a'' 1 None, entry ''b'' 4 (Some 1000)] ''builds'' ''b'') = [entry ''a'' 1 None]"
    by (simp add: delete_def entry_def at_key_def)
  have s2: "select_row [entry ''a'' 1 None, entry ''b'' 4 (Some 1000)] ''builds'' ''b'' \<noteq> None"
    "select_row [entry ''a'' 1 None, entry ''b'' 4 (Some 1000)] ''builds'' ''a'' = Some (entry ''a'' 1 None)"
    by (simp_all add: select_row_def entry_def at_key_def)
  show ?thesis
    using delete_removes_stored_row[of "[entry ''a'' 1 None, entry ''b'' 4 (Some 1000)]" "''builds''" "''b''" node 500 no_get_options]
      delete_removes_stored_row[of "[entry ''a'' 1 None]" "''builds''" "''b''" node 500 no_get_options]
      s d s2
    by (auto simp: prod_eq_iff)
qed

subsection \<open>\<open>set\<close> with \<open>cas\<close>\<close>

lemma get_live:
  assumes "pk_unique db" "select_row db n k = Some r" "\<not> expired now r" "readable rt r"
    and "GetOptions.contentType options = None"
  shows "\<exists>g. get rt db now n k options = (Inr (Some g), db) \<and> metadata g = meta r"
proof -
  have c: "cleanupExpired db now n k = db"
    using assms(1-3) by (rule cleanupExpired_live)
  show ?thesis
  proof (cases "content_type r = ''application/json''")
    case True
    with assms(4) obtain v where "JSON_parse rt (val r) = Some v"
      by (auto simp: readable_def)
    with True show ?thesis by (simp add: get_def c assms(2,5))
  next
    case False
    then show ?thesis by (simp add: get_def c assms(2,5))
  qed
qed

lemma get_absent:
  "select_row db n k = None \<Longrightarrow> get rt db now n k options = (Inr None, db)"
  using get_no_row[of db now n k rt options] by (simp add: cleanupExpired_absent)

lemma get_expired:
  assumes "pk_unique db" "select_row db n k = Some r" "expired now r"
  shows "get rt db now n k options = (Inr None, filter (\<lambda>x. \<not> at_key n k x) db)"
  using get_no_row[of db now n k rt options]
  by (simp add: cleanupExpired_expired[OF assms] select_row_filter_pk)

lemma update_cas_hit:
  assumes "pk_unique db" "select_row db n k = Some r" "version r = c"
  shows "\<exists>m. update_cas db (Some b) ct e now n k c =
           Inr (Suc m, map (\<lambda>x. if at_key n k x then set_columns b ct e now x else x) db)"
proof -
  from assms(2) have r: "r \<in> set db" "at_key n k r"
    using select_row_SomeD by blast+
  have same: "\<And>x. x \<in> set db \<Longrightarrow> at_key n k x \<Longrightarrow> x = r"
    using pk_unique_same[OF assms(1) r(1) _ r(2)] by blast
  have "r \<in> set (filter (\<lambda>x. at_key n k x \<and> version x = c) db)"
    using r assms(3) by simp
  then have "0 < length (filter (\<lambda>x. at_key n k x \<and> version x = c) db)"
    by (metis length_pos_if_in_set)
  then obtain m where m: "length (filter (\<lambda>x. at_key n k x \<and> version x = c) db) = Suc m"
    by (metis Suc_pred)
  have "map (\<lambda>x. if at_key n k x \<and> version x = c then set_columns b ct e now x else x) db =
      map (\<lambda>x. if at_key n k x then set_columns b ct e now x else x) db"
  proof (rule map_cong[OF refl])
    fix x assume "x \<in> set db"
    then show "(if at_key n k x \<and> version x = c then set_columns b ct e now x else x) =
               (if at_key n k x then set_columns b ct e now x else x)"
      using same[of x] assms(3) by auto
  qed
  with m show ?thesis by (simp add: update_cas_def)
qed

text \<open>
  C1. For a table that obeys its primary key and a value that \<open>set\<close> can store,
  \<open>set\<close> with \<open>cas = c\<close> does the following. On a key whose row is live (at the
  clock reading of the version read), readable and at version \<open>c\<close>, it returns
  \<open>c + 1\<close> and rewrites the row's value, content type, expiry and update time,
  its version becoming \<open>c + 1\<close>. On a live, readable row at another version it
  throws the version-mismatch error and leaves the table as it is. On a key with
  no row it throws the key-does-not-exist error and leaves the table as it is. On
  a key whose row is expired it throws the same error, and the lazy cleanup of
  the version read has deleted that row; every other row is as it was.
\<close>

theorem cas_set:
  assumes "pk_unique db"
    and "serialize rt (contentType_of options) v = Inr (Some b)"
    and "cas options = Some c"
  shows
    "(\<forall>r. select_row db n k = Some r \<and> \<not> expired now_get r \<and> readable rt r \<and> version r = c \<longrightarrow>
         set_kv rt db now now_get n k v options =
           (Inr (c + 1),
            map (\<lambda>x. if at_key n k x
                      then set_columns b (contentType_of options) (expiresAt_of now options) now x
                      else x) db)) \<and>
     (\<forall>r. select_row db n k = Some r \<and> \<not> expired now_get r \<and> readable rt r \<and> version r \<noteq> c \<longrightarrow>
         set_kv rt db now now_get n k v options = (Inl (CasVersionMismatch c (version r)), db)) \<and>
     (select_row db n k = None \<longrightarrow>
         set_kv rt db now now_get n k v options = (Inl (CasKeyDoesNotExist c), db)) \<and>
     (\<forall>r. select_row db n k = Some r \<and> expired now_get r \<longrightarrow>
         set_kv rt db now now_get n k v options =
           (Inl (CasKeyDoesNotExist c), filter (\<lambda>x. \<not> at_key n k x) db))"
proof (intro conjI allI impI)
  fix r
  assume h: "select_row db n k = Some r \<and> \<not> expired now_get r \<and> readable rt r \<and> version r = c"
  then obtain g where g: "get rt db now_get n k \<lparr>GetOptions.contentType = None\<rparr> = (Inr (Some g), db)"
    "metadata g = meta r"
    using get_live[OF assms(1), of n k r now_get rt "\<lparr>GetOptions.contentType = None\<rparr>"] by auto
  obtain m where u: "update_cas db (Some b) (contentType_of options) (expiresAt_of now options) now n k c =
      Inr (Suc m, map (\<lambda>x. if at_key n k x
                      then set_columns b (contentType_of options) (expiresAt_of now options) now x
                      else x) db)"
    using h update_cas_hit[OF assms(1), of n k r c b "contentType_of options" "expiresAt_of now options" now]
    by auto
  show "set_kv rt db now now_get n k v options =
           (Inr (c + 1),
            map (\<lambda>x. if at_key n k x
                      then set_columns b (contentType_of options) (expiresAt_of now options) now x
                      else x) db)"
    using h by (simp add: set_kv_def assms(2,3) g u meta_def)
next
  fix r
  assume h: "select_row db n k = Some r \<and> \<not> expired now_get r \<and> readable rt r \<and> version r \<noteq> c"
  then obtain g where g: "get rt db now_get n k \<lparr>GetOptions.contentType = None\<rparr> = (Inr (Some g), db)"
    "metadata g = meta r"
    using get_live[OF assms(1), of n k r now_get rt "\<lparr>GetOptions.contentType = None\<rparr>"] by auto
  show "set_kv rt db now now_get n k v options = (Inl (CasVersionMismatch c (version r)), db)"
    using h by (simp add: set_kv_def assms(2,3) g meta_def)
next
  assume "select_row db n k = None"
  then show "set_kv rt db now now_get n k v options = (Inl (CasKeyDoesNotExist c), db)"
    by (simp add: set_kv_def assms(2,3) get_absent)
next
  fix r
  assume "select_row db n k = Some r \<and> expired now_get r"
  then show "set_kv rt db now now_get n k v options =
           (Inl (CasKeyDoesNotExist c), filter (\<lambda>x. \<not> at_key n k x) db)"
    by (simp add: set_kv_def assms(2,3) get_expired[OF assms(1)])
qed

text \<open>The claim as stated has a failed \<open>set\<close> leave the stored row unchanged also
  when the key is expired. There the failed call deletes the row.\<close>

theorem cas_set_expired_counterexample:
  "expired 2000 (entry ''u1:active'' 1 (Some 1000)) \<and>
   set_kv node [entry ''u1:active'' 1 (Some 1000)] 2000 2000 ''builds'' ''u1:active'' (JBool False)
     (no_set_options\<lparr>cas := Some 1\<rparr>) = (Inl (CasKeyDoesNotExist 1), [])"
  by (simp add: set_kv_def get_def cleanupExpired_def select_row_def serialize_def
      contentType_of_def expiresAt_of_def expired_def at_key_def example_defs)

theorem cas_set_witness:
  "pk_unique [entry ''u1:active'' 3 None] \<and>
   serialize node (contentType_of (no_set_options\<lparr>cas := Some 3\<rparr>)) (JBool False) = Inr (Some ''false'') \<and>
   set_kv node [entry ''u1:active'' 3 None] 5000 5000 ''builds'' ''u1:active'' (JBool False)
     (no_set_options\<lparr>cas := Some 3\<rparr>) =
     (Inr 4, [\<lparr>ns = ''builds'', key = ''u1:active'', val = ''false'',
               content_type = ''application/json'', version = 4, expires_at = None,
               updated_at = 5000\<rparr>]) \<and>
   set_kv node [entry ''u1:active'' 3 None] 5000 5000 ''builds'' ''u1:active'' (JBool False)
     (no_set_options\<lparr>cas := Some 2\<rparr>) =
     (Inl (CasVersionMismatch 2 3), [entry ''u1:active'' 3 None]) \<and>
   set_kv node [] 5000 5000 ''builds'' ''u1:active'' (JBool False)
     (no_set_options\<lparr>cas := Some 1\<rparr>) = (Inl (CasKeyDoesNotExist 1), []) \<and>
   set_kv node [entry ''u1:active'' 3 (Some 1000)] 5000 5000 ''builds'' ''u1:active'' (JBool False)
     (no_set_options\<lparr>cas := Some 3\<rparr>) = (Inl (CasKeyDoesNotExist 3), [])"
proof -
  have pk: "pk_unique [entry ''u1:active'' 3 None]" "pk_unique []"
    "pk_unique [entry ''u1:active'' 3 (Some 1000)]"
    by (simp_all add: pk_unique_def)
  have ser: "\<And>c. serialize node (contentType_of (no_set_options\<lparr>cas := Some c\<rparr>)) (JBool False)
      = Inr (Some ''false'')"
    by (simp add: serialize_def contentType_of_def example_defs)
  have sel: "select_row [entry ''u1:active'' 3 None] ''builds'' ''u1:active'' = Some (entry ''u1:active'' 3 None)"
    "select_row [] ''builds'' ''u1:active'' = None"
    "select_row [entry ''u1:active'' 3 (Some 1000)] ''builds'' ''u1:active'' = Some (entry ''u1:active'' 3 (Some 1000))"
    by (simp_all add: select_row_def at_key_def entry_def)
  have facts: "\<not> expired 5000 (entry ''u1:active'' 3 None)" "readable node (entry ''u1:active'' 3 None)"
    "version (entry ''u1:active'' 3 None) = 3" "expired 5000 (entry ''u1:active'' 3 (Some 1000))"
    "at_key ''builds'' ''u1:active'' (entry ''u1:active'' 3 None)"
    "at_key ''builds'' ''u1:active'' (entry ''u1:active'' 3 (Some 1000))"
    by (simp_all add: expired_def readable_def at_key_def example_defs)
  have upd: "set_columns ''false'' (contentType_of (no_set_options\<lparr>cas := Some 3\<rparr>))
       (expiresAt_of 5000 (no_set_options\<lparr>cas := Some 3\<rparr>)) 5000 (entry ''u1:active'' 3 None) =
     \<lparr>ns = ''builds'', key = ''u1:active'', val = ''false'',
               content_type = ''application/json'', version = 4, expires_at = None,
               updated_at = 5000\<rparr>"
    by (simp add: set_columns_def contentType_of_def expiresAt_of_def example_defs)
  show ?thesis
    using cas_set[OF pk(1) ser[of 3], of 3 "''builds''" "''u1:active''" 5000 5000]
      cas_set[OF pk(1) ser[of 2], of 2 "''builds''" "''u1:active''" 5000 5000]
      cas_set[OF pk(2) ser[of 1], of 1 "''builds''" "''u1:active''" 5000 5000]
      cas_set[OF pk(3) ser[of 3], of 3 "''builds''" "''u1:active''" 5000 5000]
    by (simp add: pk ser sel facts upd)
qed

subsection \<open>\<open>set\<close> without \<open>cas\<close>\<close>

lemma at_key_set_columns [simp]: "at_key n k (set_columns b ct e now r) = at_key n k r"
  by (simp add: at_key_def set_columns_def)

lemma version_set_columns [simp]: "version (set_columns b ct e now r) = version r + 1"
  by (simp add: set_columns_def)

lemma select_row_map_at_key:
  "select_row (map (\<lambda>x. if at_key n k x then set_columns b ct e now x else x) db) n k =
   map_option (set_columns b ct e now) (select_row db n k)"
  unfolding select_row_def by (induction db) auto

lemma select_row_append_new:
  "select_row db n k = None \<Longrightarrow> at_key n k r \<Longrightarrow> select_row (db @ [r]) n k = Some r"
  unfolding select_row_def by (induction db) (auto split: if_splits)

lemma upsert_absent:
  "select_row db n k = None \<Longrightarrow>
   upsert db n k (Some b) ct e now =
     Inr (1, db @ [\<lparr>ns = n, key = k, val = b, content_type = ct, version = 1,
                     expires_at = e, updated_at = now\<rparr>])"
  by (simp add: upsert_def)

lemma upsert_present:
  "select_row db n k = Some r \<Longrightarrow>
   upsert db n k (Some b) ct e now =
     Inr (version r + 1, map (\<lambda>x. if at_key n k x then set_columns b ct e now x else x) db)"
  by (simp add: upsert_def)

lemma set_kv_unconditional:
  assumes "cas options = None"
    and "serialize rt (contentType_of options) v = Inr (Some b)"
  shows "set_kv rt db now now_get n k v options =
           (case upsert db n k (Some b) (contentType_of options) (expiresAt_of now options) now of
              Inl err \<Rightarrow> (Inl err, db) | Inr (ver, db1) \<Rightarrow> (Inr ver, db1))"
  by (simp add: set_kv_def assms)

lemma set_kv_unconditional_step:
  assumes "cas options = None"
    and "serialize rt (contentType_of options) v = Inr (Some b)"
  shows "fst (set_kv rt db now now_get n k v options) = Inr (stored_version db n k + 1) \<and>
         stored_version (snd (set_kv rt db now now_get n k v options)) n k = stored_version db n k + 1"
proof (cases "select_row db n k")
  case None
  then show ?thesis
    by (simp add: set_kv_unconditional[OF assms] upsert_absent stored_version_def
        select_row_append_new at_key_def)
next
  case (Some r)
  then show ?thesis
    by (simp add: set_kv_unconditional[OF assms] upsert_present stored_version_def
        select_row_map_at_key)
qed

subsection \<open>The row a successful \<open>set\<close> leaves\<close>

lemma get_SomeD:
  "get rt db now n k options = (Inr (Some g), db1) \<Longrightarrow>
   db1 = cleanupExpired db now n k \<and> (\<exists>r. select_row db1 n k = Some r \<and> metadata g = meta r)"
  by (auto simp: get_def Let_def split: option.splits if_splits)

lemma pk_unique_map:
  "(\<And>x. ns (f x) = ns x \<and> key (f x) = key x) \<Longrightarrow> pk_unique (map f db) = pk_unique db"
  by (simp add: pk_unique_def comp_def)

lemma pk_unique_append_new:
  "pk_unique db \<Longrightarrow> select_row db n k = None \<Longrightarrow> at_key n k r \<Longrightarrow> pk_unique (db @ [r])"
  by (auto simp: pk_unique_def select_row_None_iff at_key_def)

lemma set_columns_at_key:
  "at_key n k r \<Longrightarrow>
   set_columns b ct e now r =
     \<lparr>ns = n, key = k, val = b, content_type = ct, version = version r + 1,
      expires_at = e, updated_at = now\<rparr>"
  by (cases r) (simp add: set_columns_def at_key_def)

lemma select_row_map_cas:
  "select_row (map (\<lambda>x. if at_key n k x \<and> version x = c then set_columns b ct e now x else x) db) n k =
   map_option (\<lambda>r. if version r = c then set_columns b ct e now r else r) (select_row db n k)"
  unfolding select_row_def by (induction db) auto

lemma set_kv_stored_row:
  assumes "pk_unique db"
    and "set_kv rt db now now_get n k v options = (Inr ver, db')"
    and "serialize rt (contentType_of options) v = Inr (Some b)"
  shows "pk_unique db' \<and>
         select_row db' n k =
           Some \<lparr>ns = n, key = k, val = b, content_type = contentType_of options, version = ver,
                 expires_at = expiresAt_of now options, updated_at = now\<rparr>"
proof (cases "cas options")
  case None
  show ?thesis
  proof (cases "select_row db n k")
    case N: None
    from assms(2) have "ver = 1"
      "db' = db @ [\<lparr>ns = n, key = k, val = b, content_type = contentType_of options, version = 1,
                 expires_at = expiresAt_of now options, updated_at = now\<rparr>]"
      by (simp_all add: set_kv_unconditional[OF None assms(3)] upsert_absent[OF N])
    then show ?thesis
      using pk_unique_append_new[OF assms(1) N] select_row_append_new[OF N]
      by (simp add: at_key_def)
  next
    case (Some r)
    then have k: "at_key n k r" using select_row_SomeD by blast
    from assms(2) have "ver = version r + 1"
      "db' = map (\<lambda>x. if at_key n k x
                     then set_columns b (contentType_of options) (expiresAt_of now options) now x
                     else x) db"
      by (simp_all add: set_kv_unconditional[OF None assms(3)] upsert_present[OF Some])
    moreover have "pk_unique (map (\<lambda>x. if at_key n k x
                     then set_columns b (contentType_of options) (expiresAt_of now options) now x
                     else x) db)"
      using assms(1) by (subst pk_unique_map) (auto simp: set_columns_def)
    ultimately show ?thesis
      by (simp add: select_row_map_at_key Some set_columns_at_key[OF k])
  qed
next
  case (Some c)
  let ?ct = "contentType_of options" and ?e = "expiresAt_of now options"
  obtain res db1 where g: "get rt db now_get n k \<lparr>GetOptions.contentType = None\<rparr> = (res, db1)"
    by fastforce
  from assms(2) obtain cur where res: "res = Inr (Some cur)"
    and ver: "ValueMetadata.version (metadata cur) = c"
    by (auto simp: set_kv_def assms(3) Some g split: sum.splits option.splits if_splits)
  from get_SomeD[OF g[unfolded res]] obtain r where
    db1: "db1 = cleanupExpired db now_get n k" and r: "select_row db1 n k = Some r"
    and m: "metadata cur = meta r"
    by blast
  from ver m have vr: "version r = c" by (simp add: meta_def)
  from r have k: "at_key n k r" using select_row_SomeD by blast
  have pk1: "pk_unique db1" using assms(1) db1 by (simp add: cleanupExpired_def pk_unique_filter)
  let ?db2 = "map (\<lambda>x. if at_key n k x \<and> version x = c then set_columns b ?ct ?e now x else x) db1"
  from assms(2) have out: "ver = c + 1" "db' = ?db2"
    by (auto simp: set_kv_def Let_def assms(3) Some g res ver update_cas_def split: if_splits)
  have "pk_unique ?db2"
    using pk1 by (subst pk_unique_map) (auto simp: set_columns_def)
  moreover have "select_row ?db2 n k = Some (set_columns b ?ct ?e now r)"
    by (simp add: select_row_map_cas r vr)
  ultimately show ?thesis
    using out vr by (simp add: set_columns_at_key[OF k])
qed

subsection \<open>\<open>get\<close> after \<open>set\<close>\<close>

text \<open>
  C8. After a \<open>set\<close> that succeeded with the content type \<open>application/json\<close> (the
  default) on a value \<open>v\<close> whose JSON text parses back, \<open>get\<close> on the key, at any
  instant before the entry's expiry, returns the parsed JSON text of \<open>v\<close>, that is
  \<open>JSON.parse(JSON.stringify(v))\<close>, with metadata holding the version \<open>set\<close>
  returned, the expiry and update time it wrote, and the content type
  \<open>application/json\<close>; the read leaves the table as it is.
\<close>

theorem json_round_trip:
  assumes "pk_unique db"
    and "contentType_of options = ''application/json''"
    and "JSON_stringify rt v = Some s" and "JSON_parse rt s = Some v'"
    and "set_kv rt db now now_get n k v options = (Inr ver, db')"
    and "expiresAt_of now options = None \<or> (\<exists>e. expiresAt_of now options = Some e \<and> t < e)"
    and "GetOptions.contentType gopts = None \<or>
         GetOptions.contentType gopts = Some ''application/json''"
  shows "get rt db' t n k gopts =
           (Inr (Some \<lparr>gr_value = Parsed v',
                        metadata = \<lparr>ValueMetadata.version = ver,
                                     expiresAt = expiresAt_of now options,
                                     updatedAt = now,
                                     contentType = ''application/json''\<rparr>\<rparr>),
            db')"
proof -
  let ?row = "\<lparr>ns = n, key = k, val = s, content_type = ''application/json'', version = ver,
               expires_at = expiresAt_of now options, updated_at = now\<rparr>"
  note ct = assms(2)
  have ser: "serialize rt (contentType_of options) v = Inr (Some s)"
    using assms(3) by (simp add: serialize_def ct)
  from set_kv_stored_row[OF assms(1,5) ser]
  have pk: "pk_unique db'" and sel: "select_row db' n k = Some ?row"
    by (simp_all add: ct)
  have live: "\<not> expired t ?row"
    using assms(6) by (auto simp: expired_def)
  have c: "cleanupExpired db' t n k = db'"
    using pk sel live by (rule cleanupExpired_live)
  show ?thesis
    using assms(4,7) by (auto simp: get_def c sel meta_def)
qed

theorem json_round_trip_witness:
  "pk_unique [] \<and>
   contentType_of (no_set_options\<lparr>ttl := Some 1\<rparr>) = ''application/json'' \<and>
   JSON_stringify node (JBool True) = Some ''true'' \<and>
   JSON_parse node ''true'' = Some (JBool True) \<and>
   set_kv node [] 5000 5000 ''builds'' ''u1:active'' (JBool True) (no_set_options\<lparr>ttl := Some 1\<rparr>) =
     (Inr 1, [\<lparr>ns = ''builds'', key = ''u1:active'', val = ''true'',
               content_type = ''application/json'', version = 1, expires_at = Some 6000,
               updated_at = 5000\<rparr>]) \<and>
   expiresAt_of 5000 (no_set_options\<lparr>ttl := Some 1\<rparr>) = Some 6000 \<and>
   (5999::int) < 6000 \<and>
   get node [\<lparr>ns = ''builds'', key = ''u1:active'', val = ''true'',
               content_type = ''application/json'', version = 1, expires_at = Some 6000,
               updated_at = 5000\<rparr>] 5999 ''builds'' ''u1:active'' no_get_options =
     (Inr (Some \<lparr>gr_value = Parsed (JBool True),
                  metadata = \<lparr>ValueMetadata.version = 1, expiresAt = Some 6000,
                               updatedAt = 5000, contentType = ''application/json''\<rparr>\<rparr>),
      [\<lparr>ns = ''builds'', key = ''u1:active'', val = ''true'',
               content_type = ''application/json'', version = 1, expires_at = Some 6000,
               updated_at = 5000\<rparr>])"
proof -
  have h: "pk_unique []"
    "contentType_of (no_set_options\<lparr>ttl := Some 1\<rparr>) = ''application/json''"
    "JSON_stringify node (JBool True) = Some ''true''"
    "JSON_parse node ''true'' = Some (JBool True)"
    by (simp_all add: pk_unique_def contentType_of_def example_defs)
  have s: "set_kv node [] 5000 5000 ''builds'' ''u1:active'' (JBool True) (no_set_options\<lparr>ttl := Some 1\<rparr>) =
     (Inr 1, [\<lparr>ns = ''builds'', key = ''u1:active'', val = ''true'',
               content_type = ''application/json'', version = 1, expires_at = Some 6000,
               updated_at = 5000\<rparr>])"
    by (simp add: set_kv_def upsert_def select_row_def serialize_def
        contentType_of_def expiresAt_of_def example_defs)
  have e: "expiresAt_of 5000 (no_set_options\<lparr>ttl := Some 1\<rparr>) = Some 6000"
    by (simp add: expiresAt_of_def no_set_options_def)
  have e': "expiresAt_of 5000 (no_set_options\<lparr>ttl := Some 1\<rparr>) = None \<or>
     (\<exists>e. expiresAt_of 5000 (no_set_options\<lparr>ttl := Some 1\<rparr>) = Some e \<and> 5999 < e)"
    by (simp add: e)
  have g: "GetOptions.contentType no_get_options = None \<or>
         GetOptions.contentType no_get_options = Some ''application/json''"
    by (simp add: no_get_options_def)
  show ?thesis
    using json_round_trip[OF h s e' g] by (simp add: h s e)
qed

subsection \<open>Runs of calls\<close>

lemma select_row_filter:
  assumes "pk_unique db"
  shows "select_row (filter P db) n k =
           (case select_row db n k of None \<Rightarrow> None | Some r \<Rightarrow> if P r then Some r else None)"
proof (cases "select_row db n k")
  case None
  then have "select_row (filter P db) n k = None" by (auto simp: select_row_None_iff)
  with None show ?thesis by simp
next
  case (Some r)
  then have r: "r \<in> set db" "at_key n k r" using select_row_SomeD by blast+
  show ?thesis
  proof (cases "P r")
    case True
    have "pk_unique (filter P db)" using assms by (rule pk_unique_filter)
    moreover have "r \<in> set (filter P db)" using r True by simp
    ultimately have "select_row (filter P db) n k = Some r"
      using r(2) by (rule select_row_member)
    with Some True show ?thesis by simp
  next
    case False
    have "\<forall>x\<in>set (filter P db). \<not> at_key n k x"
    proof
      fix x assume "x \<in> set (filter P db)"
      then have x: "x \<in> set db" "P x" by auto
      show "\<not> at_key n k x"
      proof
        assume "at_key n k x"
        then have "x = r" using pk_unique_same[OF assms r(1) x(1) r(2)] by simp
        with x(2) False show False by simp
      qed
    qed
    then have "select_row (filter P db) n k = None" by (simp add: select_row_None_iff)
    with Some False show ?thesis by simp
  qed
qed

lemma select_row_map_other:
  assumes "\<And>r. at_key n k (f r) = at_key n k r" and "\<And>r. at_key n k r \<Longrightarrow> f r = r"
  shows "select_row (map f db) n k = select_row db n k"
  unfolding select_row_def using assms by (induction db) auto

lemma select_row_append_other:
  "\<not> at_key n k r \<Longrightarrow> select_row (db @ [r]) n k = select_row db n k"
  unfolding select_row_def by (induction db) auto


lemma snd_get: "snd (get rt db now n k options) = cleanupExpired db now n k"
  by (simp add: get_def Let_def split: option.splits)

lemma pk_unique_cleanupExpired: "pk_unique db \<Longrightarrow> pk_unique (cleanupExpired db now n k)"
  by (simp add: cleanupExpired_def pk_unique_filter)

lemma pk_unique_set_columns:
  "pk_unique db \<Longrightarrow> pk_unique (map (\<lambda>x. if P x then set_columns b ct e now x else x) db)"
  by (subst pk_unique_map) (auto simp: set_columns_def)

text \<open>The table \<open>set\<close> leaves behind is one of four.\<close>

lemma set_kv_table:
  "snd (set_kv rt db now now_get n k v options) = db \<or>
   snd (set_kv rt db now now_get n k v options) = cleanupExpired db now_get n k \<or>
   (\<exists>b c. snd (set_kv rt db now now_get n k v options) =
      map (\<lambda>x. if at_key n k x \<and> version x = c
                then set_columns b (contentType_of options) (expiresAt_of now options) now x
                else x) (cleanupExpired db now_get n k)) \<or>
   (\<exists>b. cas options = None \<and>
      (case select_row db n k of
         None \<Rightarrow>
           snd (set_kv rt db now now_get n k v options) =
             db @ [\<lparr>ns = n, key = k, val = b, content_type = contentType_of options, version = 1,
                     expires_at = expiresAt_of now options, updated_at = now\<rparr>]
       | Some r \<Rightarrow>
           snd (set_kv rt db now now_get n k v options) =
             map (\<lambda>x. if at_key n k x
                       then set_columns b (contentType_of options) (expiresAt_of now options) now x
                       else x) db))"
proof (cases "serialize rt (contentType_of options) v")
  case (Inl err)
  then show ?thesis by (simp add: set_kv_def)
next
  case (Inr serialized)
  show ?thesis
  proof (cases "cas options")
    case None
    show ?thesis
    proof (cases serialized)
      case N: None
      then show ?thesis by (simp add: set_kv_def Inr None upsert_def)
    next
      case (Some b)
      have "\<exists>b. cas options = None \<and>
      (case select_row db n k of
         None \<Rightarrow>
           snd (set_kv rt db now now_get n k v options) =
             db @ [\<lparr>ns = n, key = k, val = b, content_type = contentType_of options, version = 1,
                     expires_at = expiresAt_of now options, updated_at = now\<rparr>]
       | Some r \<Rightarrow>
           snd (set_kv rt db now now_get n k v options) =
             map (\<lambda>x. if at_key n k x
                       then set_columns b (contentType_of options) (expiresAt_of now options) now x
                       else x) db)"
        by (rule exI[of _ b]) (simp add: set_kv_def Inr None Some upsert_def split: option.splits)
      then show ?thesis by blast
    qed
  next
    case (Some c)
    obtain res db1 where g: "get rt db now_get n k \<lparr>GetOptions.contentType = None\<rparr> = (res, db1)"
      by fastforce
    then have db1: "db1 = cleanupExpired db now_get n k"
      using snd_get[of rt db now_get n k "\<lparr>GetOptions.contentType = None\<rparr>"] by simp
    show ?thesis
    proof (cases serialized)
      case None
      then show ?thesis
        by (auto simp: set_kv_def Let_def Inr Some g db1 update_cas_def
            split: sum.splits option.splits if_splits)
    next
      case S: (Some b)
      have "snd (set_kv rt db now now_get n k v options) = cleanupExpired db now_get n k \<or>
            snd (set_kv rt db now now_get n k v options) =
              map (\<lambda>x. if at_key n k x \<and> version x = c
                then set_columns b (contentType_of options) (expiresAt_of now options) now x
                else x) (cleanupExpired db now_get n k)"
        by (auto simp: set_kv_def Let_def Inr Some S g db1 update_cas_def
            split: sum.splits option.splits if_splits)
      then show ?thesis by blast
    qed
  qed
qed

lemma pk_unique_set_kv:
  assumes "pk_unique db"
  shows "pk_unique (snd (set_kv rt db now now_get n k v options))"
proof -
  have a: "pk_unique (cleanupExpired db now_get n k)"
    using assms by (rule pk_unique_cleanupExpired)
  from set_kv_table[of rt db now now_get n k v options] show ?thesis
  proof (elim disjE exE conjE)
    fix b
    assume "cas options = None" and
      c: "case select_row db n k of
         None \<Rightarrow>
           snd (set_kv rt db now now_get n k v options) =
             db @ [\<lparr>ns = n, key = k, val = b, content_type = contentType_of options, version = 1,
                     expires_at = expiresAt_of now options, updated_at = now\<rparr>]
       | Some r \<Rightarrow>
           snd (set_kv rt db now now_get n k v options) =
             map (\<lambda>x. if at_key n k x
                       then set_columns b (contentType_of options) (expiresAt_of now options) now x
                       else x) db"
    show ?thesis
    proof (cases "select_row db n k")
      case None
      with c pk_unique_append_new[OF assms None] show ?thesis by (simp add: at_key_def)
    next
      case (Some r)
      with c pk_unique_set_columns[OF assms] show ?thesis by simp
    qed
  qed (use assms a pk_unique_set_columns[OF a] in auto)
qed

lemma snd_run_call:
  "snd (run_call rt db now (Get n k options)) = cleanupExpired db now n k"
  "snd (run_call rt db now (Set n k v soptions)) = snd (set_kv rt db now now n k v soptions)"
  "snd (run_call rt db now (Delete n k)) = filter (\<lambda>r. \<not> at_key n k r) db"
  "snd (run_call rt db now (List n loptions)) = db"
  "snd (run_call rt db now CleanupAllExpired) = filter (\<lambda>r. \<not> expired now r) db"
  by (simp_all add: split_beta snd_get delete_def cleanupAllExpired_def)

lemma pk_unique_run_call:
  "pk_unique db \<Longrightarrow> pk_unique (snd (run_call rt db now c))"
  by (cases c)
    (simp_all add: snd_run_call pk_unique_cleanupExpired pk_unique_set_kv pk_unique_filter
      del: run_call.simps)


lemma cleanupExpired_select_other:
  "\<not> (n' = n \<and> k' = k) \<Longrightarrow>
   select_row (cleanupExpired db now n' k') n k = select_row db n k"
  unfolding cleanupExpired_def select_row_def at_key_def by (induction db) auto

lemma set_kv_other_key:
  assumes "\<not> (n' = n \<and> k' = k)"
  shows "select_row (snd (set_kv rt db now now_get n' k' v options)) n k = select_row db n k"
proof -
  have m: "\<And>P b ct e t xs. select_row (map (\<lambda>x. if at_key n' k' x \<and> P x then set_columns b ct e t x else x) xs) n k
          = select_row xs n k"
    by (rule select_row_map_other) (use assms in \<open>auto simp: at_key_def set_columns_def\<close>)
  have m': "\<And>b ct e t xs. select_row (map (\<lambda>x. if at_key n' k' x then set_columns b ct e t x else x) xs) n k
          = select_row xs n k"
    using m[of "\<lambda>x. True"] by simp
  from set_kv_table[of rt db now now_get n' k' v options] show ?thesis
  proof (elim disjE exE conjE)
    fix b
    assume c: "case select_row db n' k' of
         None \<Rightarrow>
           snd (set_kv rt db now now_get n' k' v options) =
             db @ [\<lparr>ns = n', key = k', val = b, content_type = contentType_of options, version = 1,
                     expires_at = expiresAt_of now options, updated_at = now\<rparr>]
       | Some r \<Rightarrow>
           snd (set_kv rt db now now_get n' k' v options) =
             map (\<lambda>x. if at_key n' k' x
                       then set_columns b (contentType_of options) (expiresAt_of now options) now x
                       else x) db"
    show ?thesis
    proof (cases "select_row db n' k'")
      case None
      with c assms show ?thesis by (simp add: select_row_append_other at_key_def)
    next
      case (Some r)
      with c show ?thesis by (simp add: m')
    qed
  qed (use assms in \<open>auto simp: m cleanupExpired_select_other\<close>)
qed

text \<open>A call that is not a \<open>set\<close> on the key leaves the key's row as it is or removes it.\<close>

lemma other_call_row:
  assumes "pk_unique db" and "\<not> sets_key n k c"
  shows "select_row (snd (run_call rt db now c)) n k = select_row db n k \<or>
         select_row (snd (run_call rt db now c)) n k = None"
proof (cases c)
  case (Get n' k' options)
  then show ?thesis
    by (simp add: snd_run_call cleanupExpired_def select_row_filter[OF assms(1)]
        split: option.splits del: run_call.simps)
next
  case (Set n' k' v options)
  with assms(2) have "\<not> (n' = n \<and> k' = k)" by (simp add: sets_key_def)
  then show ?thesis
    using Set by (simp add: snd_run_call set_kv_other_key del: run_call.simps)
next
  case (Delete n' k')
  then show ?thesis
    by (simp add: snd_run_call select_row_filter[OF assms(1)]
        split: option.splits del: run_call.simps)
next
  case (List n' options)
  then show ?thesis by simp
next
  case CleanupAllExpired
  then show ?thesis
    by (simp add: snd_run_call select_row_filter[OF assms(1)]
        split: option.splits del: run_call.simps)
qed

lemma set_call_version:
  assumes "sets_key n k c" and "plain_set rt n k c"
  shows "fst (run_call rt db now c) = SetOut (Inr (stored_version db n k + 1)) \<and>
         stored_version (snd (run_call rt db now c)) n k = stored_version db n k + 1"
proof -
  from assms(1) obtain v options where c: "c = Set n k v options"
    by (cases c) (auto simp: sets_key_def)
  with assms(2) obtain b where
    u: "cas options = None" "serialize rt (contentType_of options) v = Inr (Some b)"
    by (auto simp: plain_set_def storable_def)
  from set_kv_unconditional_step[OF u, of db now now n k] show ?thesis
    by (simp add: c split_beta)
qed

lemma upto_cons_next:
  fixes a m :: int
  assumes "0 \<le> m"
  shows "[a + 1 .. a + (1 + m)] = (a + 1) # [a + 1 + 1 .. a + 1 + m]"
proof -
  have le: "a + 1 \<le> a + (1 + m)" using assms by simp
  have eq: "a + (1 + m) = a + 1 + m" by simp
  show ?thesis by (subst upto_rec1[OF le]) (simp only: eq)
qed

lemma set_versions_consecutive:
  assumes "pk_unique db"
    and "\<forall>(now, c)\<in>set calls. plain_set rt n k c"
    and "keeps_row rt db n k calls"
  shows "set_results rt db n k calls =
           map (\<lambda>i. SetOut (Inr i))
             [stored_version db n k + 1 ..
              stored_version db n k + int (length (filter (\<lambda>(now, c). sets_key n k c) calls))]"
  using assms
proof (induction calls arbitrary: db)
  case Nil
  then show ?case by simp
next
  case (Cons nc calls)
  obtain now c where nc: "nc = (now, c)" by (cases nc) auto
  let ?db1 = "snd (run_call rt db now c)"
  have pk1: "pk_unique ?db1" using Cons.prems(1) by (rule pk_unique_run_call)
  have plain: "plain_set rt n k c" "\<forall>(now, c)\<in>set calls. plain_set rt n k c"
    using Cons.prems(2) nc by auto
  have keep: "select_row db n k = None \<or> select_row ?db1 n k \<noteq> None" "keeps_row rt ?db1 n k calls"
    using Cons.prems(3) nc by auto
  note ih = Cons.IH[OF pk1 plain(2) keep(2)]
  show ?case
  proof (cases "sets_key n k c")
    case True
    from set_call_version[OF True plain(1), of db now]
    have r: "fst (run_call rt db now c) = SetOut (Inr (stored_version db n k + 1))"
      "stored_version ?db1 n k = stored_version db n k + 1"
      by simp_all
    let ?m = "int (length (filter (\<lambda>(now, c). sets_key n k c) calls))"
    have up: "[stored_version db n k + 1 .. stored_version db n k + (1 + ?m)] =
          (stored_version db n k + 1) # [stored_version db n k + 1 + 1 .. stored_version db n k + 1 + ?m]"
      by (rule upto_cons_next) simp
    have len: "int (length (filter (\<lambda>(now, c). sets_key n k c) (nc # calls))) = 1 + ?m"
      using True by (simp add: nc)
    have "set_results rt db n k (nc # calls) =
            SetOut (Inr (stored_version db n k + 1)) # set_results rt ?db1 n k calls"
      using True r(1) by (simp add: nc split_beta del: run_call.simps)
    also have "\<dots> = SetOut (Inr (stored_version db n k + 1)) #
        map (\<lambda>i. SetOut (Inr i)) [stored_version db n k + 1 + 1 .. stored_version db n k + 1 + ?m]"
      by (simp only: ih r(2))
    also have "\<dots> = map (\<lambda>i. SetOut (Inr i))
        [stored_version db n k + 1 .. stored_version db n k + (1 + ?m)]"
      by (simp only: up list.map)
    finally show ?thesis by (simp only: len)
  next
    case False
    from other_call_row[OF Cons.prems(1) False, of rt now] keep(1)
    have "select_row ?db1 n k = select_row db n k" by auto
    then have "stored_version ?db1 n k = stored_version db n k"
      by (simp add: stored_version_def)
    then show ?thesis
      using ih False by (simp add: nc split_beta del: run_call.simps)
  qed
qed

subsection \<open>The versions \<open>set\<close> without \<open>cas\<close> returns\<close>

text \<open>
  C2. For a value that \<open>set\<close> can store, \<open>set\<close> without \<open>cas\<close> creates the row at
  version 1 when no row is stored for the key; when a row is stored, live or
  expired, it adds exactly 1 to that row's version and replaces value, content
  type, expiry and update time. In a run of calls of any methods on any keys, in
  which every \<open>set\<close> on the key is of this kind and no call removes the key's row,
  the \<open>set\<close> calls on the key return the stored version plus 1, 2, 3 and so on:
  \<open>1, 2, 3, ...\<close> from a key with no row, with no gaps or repeats.
\<close>

theorem unconditional_set:
  assumes "cas options = None"
    and "serialize rt (contentType_of options) v = Inr (Some b)"
  shows
    "(select_row db n k = None \<longrightarrow>
        set_kv rt db now now_get n k v options =
          (Inr 1, db @ [\<lparr>ns = n, key = k, val = b, content_type = contentType_of options,
                          version = 1, expires_at = expiresAt_of now options,
                          updated_at = now\<rparr>])) \<and>
     (\<forall>r. select_row db n k = Some r \<longrightarrow>
        set_kv rt db now now_get n k v options =
          (Inr (version r + 1),
           map (\<lambda>x. if at_key n k x
                     then set_columns b (contentType_of options) (expiresAt_of now options) now x
                     else x) db)) \<and>
     (\<forall>calls. pk_unique db \<and> (\<forall>(t, c)\<in>set calls. plain_set rt n k c) \<and>
              keeps_row rt db n k calls \<longrightarrow>
        set_results rt db n k calls =
          map (\<lambda>i. SetOut (Inr i))
            [stored_version db n k + 1 ..
             stored_version db n k + int (length (filter (\<lambda>(t, c). sets_key n k c) calls))])"
  by (simp add: set_kv_unconditional[OF assms] upsert_absent upsert_present set_versions_consecutive)

text \<open>The claim as stated has \<open>set\<close> create an expired key at version 1. While the
  expired row is still stored, its version goes on: from 5 to 6 here.\<close>

theorem unconditional_set_expired_counterexample:
  "expired 2000 (entry ''u1:active'' 5 (Some 1000)) \<and>
   set_kv node [entry ''u1:active'' 5 (Some 1000)] 2000 2000 ''builds'' ''u1:active'' (JBool False)
     no_set_options =
     (Inr 6, [\<lparr>ns = ''builds'', key = ''u1:active'', val = ''false'',
               content_type = ''application/json'', version = 6, expires_at = None,
               updated_at = 2000\<rparr>])"
  by (simp add: set_kv_def upsert_def select_row_def serialize_def set_columns_def
      contentType_of_def expiresAt_of_def expired_def at_key_def example_defs)

theorem unconditional_set_witness:
  "cas no_set_options = None \<and>
   serialize node (contentType_of no_set_options) (JBool True) = Inr (Some ''true'') \<and>
   set_kv node [] 100 100 ''builds'' ''u1:active'' (JBool True) no_set_options =
     (Inr 1, [\<lparr>ns = ''builds'', key = ''u1:active'', val = ''true'',
               content_type = ''application/json'', version = 1, expires_at = None,
               updated_at = 100\<rparr>]) \<and>
   set_kv node [entry ''u1:active'' 3 None] 100 100 ''builds'' ''u1:active'' (JBool True) no_set_options =
     (Inr 4, [\<lparr>ns = ''builds'', key = ''u1:active'', val = ''true'',
               content_type = ''application/json'', version = 4, expires_at = None,
               updated_at = 100\<rparr>]) \<and>
   pk_unique [] \<and> keeps_row node [] ''builds'' ''u1:active'' example_run \<and>
   set_results node [] ''builds'' ''u1:active'' example_run =
     [SetOut (Inr 1), SetOut (Inr 2), SetOut (Inr 3)]"
proof -
  have h: "cas no_set_options = None"
    "serialize node (contentType_of no_set_options) (JBool True) = Inr (Some ''true'')"
    by (simp_all add: serialize_def contentType_of_def example_defs)
  have sel: "select_row [] ''builds'' ''u1:active'' = None"
    "select_row [entry ''u1:active'' 3 None] ''builds'' ''u1:active'' = Some (entry ''u1:active'' 3 None)"
    by (simp_all add: select_row_def at_key_def entry_def)
  note t0 = unconditional_set[OF h, of "[]" "''builds''" "''u1:active''" 100 100]
  note t1 = unconditional_set[OF h, of "[entry ''u1:active'' 3 None]" "''builds''" "''u1:active''" 100 100]
  have a: "set_kv node [] 100 100 ''builds'' ''u1:active'' (JBool True) no_set_options =
     (Inr 1, [\<lparr>ns = ''builds'', key = ''u1:active'', val = ''true'',
               content_type = ''application/json'', version = 1, expires_at = None,
               updated_at = 100\<rparr>])"
    using t0[THEN conjunct1, THEN mp, OF sel(1)]
    by (simp add: contentType_of_def expiresAt_of_def example_defs)
  have b: "set_kv node [entry ''u1:active'' 3 None] 100 100 ''builds'' ''u1:active'' (JBool True) no_set_options =
     (Inr 4, [\<lparr>ns = ''builds'', key = ''u1:active'', val = ''true'',
               content_type = ''application/json'', version = 4, expires_at = None,
               updated_at = 100\<rparr>])"
    using t1[THEN conjunct2, THEN conjunct1, THEN spec, THEN mp, OF sel(2)]
    by (simp add: at_key_def set_columns_def contentType_of_def expiresAt_of_def example_defs)
  have pk: "pk_unique []" by (simp add: pk_unique_def)
  have st: "storable node (JBool True) no_set_options"
    "storable node (JBool False) (no_set_options\<lparr>ttl := Some 60\<rparr>)"
    "storable node JNull no_set_options"
    by (simp_all add: storable_def serialize_def contentType_of_def example_defs)
  have plain: "\<forall>(t, c)\<in>set example_run. plain_set node ''builds'' ''u1:active'' c"
    by (simp add: example_run_def plain_set_def storable_def serialize_def contentType_of_def
        example_defs)
  have keep: "keeps_row node [] ''builds'' ''u1:active'' example_run"
    by code_simp
  have cnt: "length (filter (\<lambda>(t, c). sets_key ''builds'' ''u1:active'' c) example_run) = 3"
    by (simp add: example_run_def sets_key_def)
  have v0: "stored_version [] ''builds'' ''u1:active'' = 0"
    by (simp add: stored_version_def sel)
  have up: "[(1::int)..3] = [1, 2, 3]" by code_simp
  have d: "set_results node [] ''builds'' ''u1:active'' example_run =
     [SetOut (Inr 1), SetOut (Inr 2), SetOut (Inr 3)]"
    using t0[THEN conjunct2, THEN conjunct2, THEN spec, THEN mp, OF conjI[OF pk conjI[OF plain keep]]]
    by (simp add: cnt v0 up del: set_results.simps)
  from h a b pk keep d show ?thesis by blast
qed

subsection \<open>The statement of \<open>list\<close>\<close>

lemma filter_const: "filter (\<lambda>x. c) xs = (if c then xs else [])"
  by (induction xs) auto

lemma list_query_eq:
  "list_query db now n pre sk lim =
     (if any_expired db now n then [] else sql_limit (lim + 1) (matching_keys db n pre sk))"
proof -
  have e: "list_ex (\<lambda>r. ns r = n \<and> key r = key r \<and> expired now r) db = any_expired db now n"
    by (simp add: list_ex_iff any_expired_def)
  have f: "filter (matches_filters n pre sk) db =
      (let rows0 = filter (\<lambda>r. ns r = n) db;
          rows1 = (case pre of
                     None \<Rightarrow> rows0
                   | Some p \<Rightarrow> if p = [] then rows0
                               else filter (\<lambda>r. sql_like (p @ ''%'') (key r)) rows0)
       in (if sk = [] then rows1 else filter (\<lambda>r. sk < key r) rows1))"
    by (auto simp: matches_filters_def Let_def split: option.splits intro: filter_cong)
  show ?thesis
    unfolding list_query_def matching_keys_def f e Let_def filter_const by simp
qed

lemma matching_keys_sorted: "sorted (matching_keys db n pre sk)"
  by (simp add: matching_keys_def)

lemma distinct_keys_in_ns:
  "pk_unique db \<Longrightarrow> distinct (map key (filter (matches_filters n pre sk) db))"
  unfolding pk_unique_def matches_filters_def
proof (induction db)
  case Nil
  then show ?case by simp
next
  case (Cons r db)
  then show ?case by (auto simp: image_iff)
qed

lemma matching_keys_distinct: "pk_unique db \<Longrightarrow> distinct (matching_keys db n pre sk)"
  unfolding matching_keys_def by (simp add: distinct_keys_in_ns)

lemma matching_keys_set:
  "set (matching_keys db n pre sk) = key ` {r \<in> set db. matches_filters n pre sk r}"
  unfolding matching_keys_def by auto

lemma list_page:
  assumes "1 \<le> limit_of options"
  shows "list rt db now n options =
           Inr \<lparr>keys = take (nat (limit_of options))
                         (list_query db now n (prefix options) (startKey_of rt options) (limit_of options)),
                cursor =
                  (if limit_of options <
                        int (length (list_query db now n (prefix options) (startKey_of rt options)
                                       (limit_of options)))
                   then Some (toBase64 rt
                          (last (take (nat (limit_of options))
                             (list_query db now n (prefix options) (startKey_of rt options)
                                (limit_of options)))))
                   else None)\<rparr>"
proof -
  let ?rows = "list_query db now n (prefix options) (startKey_of rt options) (limit_of options)"
  show ?thesis
  proof (cases "limit_of options < int (length ?rows)")
    case True
    with assms have "take (nat (limit_of options)) ?rows \<noteq> []" by auto
    then obtain x xs where "take (nat (limit_of options)) ?rows = x # xs"
      by (cases "take (nat (limit_of options)) ?rows") auto
    with True assms show ?thesis
      by (simp add: list_def Let_def js_slice0_def)
  next
    case False
    then have "take (nat (limit_of options)) ?rows = ?rows" by simp
    with False show ?thesis by (simp add: list_def Let_def)
  qed
qed



subsection \<open>\<open>list\<close> with limit 0\<close>




subsection \<open>\<open>list\<close> and its cursor\<close>

text \<open>
  C7. No cursor string makes \<open>list\<close> fail: for every string \<open>c\<close> given as cursor
  and every page limit of at least 1, \<open>list\<close> returns a page. The cursor is decoded
  to a start key whatever it holds (the empty cursor means no start key), and the
  page holds at most \<open>limit\<close> keys, in ascending order without repetition, each the
  key of a row that passes the filters with that start key, so each lies strictly
  after it. When no row of the namespace is expired the page is exactly the first
  \<open>limit\<close> matching keys after the start key.
\<close>

theorem list_any_cursor:
  assumes "pk_unique db" and "1 \<le> limit_of options"
  shows "\<exists>page. list rt db now n (options\<lparr>ListOptions.cursor := Some c\<rparr>) = Inr page \<and>
           sorted (keys page) \<and> distinct (keys page) \<and>
           length (keys page) \<le> nat (limit_of options) \<and>
           set (keys page) \<subseteq>
             key ` {r \<in> set db. matches_filters n (prefix options)
                                   (if c = [] then [] else fromBase64 rt c) r} \<and>
           (\<not> any_expired db now n \<longrightarrow>
              keys page = take (nat (limit_of options))
                            (matching_keys db n (prefix options)
                               (if c = [] then [] else fromBase64 rt c)))"
proof -
  let ?o = "options\<lparr>ListOptions.cursor := Some c\<rparr>"
  let ?sk = "if c = [] then [] else fromBase64 rt c"
  let ?lim = "limit_of options"
  have o: "limit_of ?o = ?lim" "startKey_of rt ?o = ?sk" "prefix ?o = prefix options"
    by (simp_all add: limit_of_def startKey_of_def)
  let ?rows = "list_query db now n (prefix options) ?sk ?lim"
  let ?mk = "matching_keys db n (prefix options) ?sk"
  have rows: "?rows = (if any_expired db now n then [] else take (nat (?lim + 1)) ?mk)"
    using assms(2) by (simp add: list_query_eq sql_limit_def)
  have tk: "take (nat ?lim) (take (nat (?lim + 1)) ?mk) = take (nat ?lim) ?mk"
    using assms(2) by (simp add: min_def)
  have keys: "take (nat ?lim) ?rows = (if any_expired db now n then [] else take (nat ?lim) ?mk)"
    by (simp add: rows tk)
  have s: "sorted (take (nat ?lim) ?mk)" "distinct (take (nat ?lim) ?mk)"
    using matching_keys_sorted matching_keys_distinct[OF assms(1)]
    by (simp_all add: sorted_wrt_take)
  have sub: "set (take (nat ?lim) ?mk) \<subseteq> key ` {r \<in> set db. matches_filters n (prefix options) ?sk r}"
    using set_take_subset[of "nat ?lim" ?mk] by (simp add: matching_keys_set)
  from list_page[of ?o rt db now n] assms(2) obtain cur where
    "list rt db now n ?o = Inr \<lparr>keys = take (nat ?lim) ?rows, cursor = cur\<rparr>"
    by (simp add: o)
  then show ?thesis
    using s sub by (auto simp: keys)
qed

text \<open>The claim as stated has \<open>list\<close> fail on a cursor that does not decode to a
  key. The cursor \<open>!\<close> holds no base64 character; it decodes to the empty string
  and \<open>list\<close> returns the first page.\<close>

theorem list_undecodable_cursor_counterexample:
  "list node [entry ''b'' 1 None, entry ''a'' 1 None] 0 ''builds''
     (no_list_options\<lparr>ListOptions.cursor := Some ''!''\<rparr>) =
   Inr \<lparr>keys = [''a'', ''b''], cursor = None\<rparr>"
  by code_simp

theorem list_any_cursor_witness:
  "pk_unique [entry ''b'' 1 None, entry ''a'' 1 None, entry ''c'' 1 None] \<and>
   1 \<le> limit_of (no_list_options\<lparr>limit := Some 2\<rparr>) \<and>
   (\<exists>page. list node [entry ''b'' 1 None, entry ''a'' 1 None, entry ''c'' 1 None] 0 ''builds''
              (no_list_options\<lparr>limit := Some 2, ListOptions.cursor := Some ''Yg==''\<rparr>) = Inr page \<and>
           sorted (keys page) \<and> distinct (keys page) \<and>
           length (keys page) \<le> nat (limit_of (no_list_options\<lparr>limit := Some 2\<rparr>)) \<and>
           set (keys page) \<subseteq>
             key ` {r \<in> set [entry ''b'' 1 None, entry ''a'' 1 None, entry ''c'' 1 None].
                     matches_filters ''builds'' (prefix (no_list_options\<lparr>limit := Some 2\<rparr>))
                       (if ''Yg=='' = [] then [] else fromBase64 node ''Yg=='') r}) \<and>
   fromBase64 node ''Yg=='' = ''b'' \<and>
   list node [entry ''b'' 1 None, entry ''a'' 1 None, entry ''c'' 1 None] 0 ''builds''
     (no_list_options\<lparr>limit := Some 2, ListOptions.cursor := Some ''Yg==''\<rparr>) =
     Inr \<lparr>keys = [''c''], cursor = None\<rparr>"
proof -
  have h: "pk_unique [entry ''b'' 1 None, entry ''a'' 1 None, entry ''c'' 1 None]"
    "1 \<le> limit_of (no_list_options\<lparr>limit := Some 2\<rparr>)"
    by (simp_all add: pk_unique_def entry_def limit_of_def no_list_options_def)
  have d: "fromBase64 node ''Yg=='' = ''b''" by code_simp
  have c: "list node [entry ''b'' 1 None, entry ''a'' 1 None, entry ''c'' 1 None] 0 ''builds''
     (no_list_options\<lparr>limit := Some 2, ListOptions.cursor := Some ''Yg==''\<rparr>) =
     Inr \<lparr>keys = [''c''], cursor = None\<rparr>"
    by code_simp
  from list_any_cursor[OF h, of node 0 "''builds''" "''Yg==''"]
  obtain page where p:
    "list node [entry ''b'' 1 None, entry ''a'' 1 None, entry ''c'' 1 None] 0 ''builds''
              (no_list_options\<lparr>limit := Some 2, ListOptions.cursor := Some ''Yg==''\<rparr>) = Inr page"
    "sorted (keys page)" "distinct (keys page)"
    "length (keys page) \<le> nat (limit_of (no_list_options\<lparr>limit := Some 2\<rparr>))"
    "set (keys page) \<subseteq>
             key ` {r \<in> set [entry ''b'' 1 None, entry ''a'' 1 None, entry ''c'' 1 None].
                     matches_filters ''builds'' (prefix (no_list_options\<lparr>limit := Some 2\<rparr>))
                       (if ''Yg=='' = [] then [] else fromBase64 node ''Yg=='') r}"
    by blast
  from h p d c show ?thesis by blast
qed

subsection \<open>\<open>list\<close> and expired rows\<close>

text \<open>One expired row that is still stored empties every page of its namespace.\<close>

lemma list_empty_when_any_expired:
  assumes "any_expired db now n" and "0 \<le> limit_of options"
  shows "list rt db now n options = Inr \<lparr>keys = [], cursor = None\<rparr>"
  using assms by (simp add: list_def Let_def list_query_eq)

text \<open>A page holds keys the statement returned, and its cursor is absent or made
  from its last key; the statement returns keys of rows of the namespace.\<close>

lemma list_result_shape:
  assumes "list rt db now n options = Inr page"
  shows "set (keys page)
           \<subseteq> set (list_query db now n (prefix options) (startKey_of rt options) (limit_of options)) \<and>
         (ListResult.cursor page = None \<or>
          (keys page \<noteq> [] \<and> ListResult.cursor page = Some (toBase64 rt (last (keys page)))))"
proof -
  let ?rows = "list_query db now n (prefix options) (startKey_of rt options) (limit_of options)"
  show ?thesis
  proof (cases "limit_of options < int (length ?rows)")
    case False
    with assms have "page = \<lparr>keys = ?rows, cursor = None\<rparr>"
      by (simp add: list_def Let_def)
    then show ?thesis by simp
  next
    case True
    let ?ks = "js_slice0 ?rows (limit_of options)"
    have sub: "set ?ks \<subseteq> set ?rows"
      by (auto simp: js_slice0_def dest: in_set_takeD)
    show ?thesis
    proof (cases ?ks)
      case Nil
      with True assms show ?thesis by (simp add: list_def Let_def)
    next
      case (Cons x xs)
      with True assms have "page = \<lparr>keys = ?ks, cursor = Some (toBase64 rt (last ?ks))\<rparr>"
        by (simp add: list_def Let_def)
      with sub Cons show ?thesis by simp
    qed
  qed
qed

lemma list_query_subset:
  "set (list_query db now n pre sk lim) \<subseteq> key ` {x \<in> set db. ns x = n}"
proof -
  have "set (list_query db now n pre sk lim) \<subseteq> set (matching_keys db n pre sk)"
    by (auto simp: list_query_eq sql_limit_def dest: in_set_takeD)
  also have "\<dots> \<subseteq> key ` {x \<in> set db. ns x = n}"
    by (auto simp: matching_keys_set matches_filters_def)
  finally show ?thesis .
qed

text \<open>
  C3. An entry whose expiry has passed is absent for \<open>get\<close>, and \<open>list\<close> leaves its
  key out of the page and of the cursor, whether or not its row has been deleted
  yet. While the row is stored, \<open>get\<close> on its key returns absent and every page
  \<open>list\<close> returns for its namespace is the empty page with no cursor (which it
  returns for every limit of at least 0), so the key is in no page, takes no slot
  of the limit and is no cursor boundary. Once \<open>cleanupAllExpired\<close> has deleted the
  row, \<open>get\<close> returns absent, and no page \<open>list\<close> returns holds the key or has a
  cursor made from it.
\<close>

theorem expired_entry_excluded:
  assumes "pk_unique db" and "r \<in> set db" and "expired now r"
  shows "fst (get rt db now (ns r) (key r) gopts) = Inr None \<and>
         (\<forall>page. list rt db now (ns r) lopts = Inr page \<longrightarrow>
            keys page = [] \<and> ListResult.cursor page = None) \<and>
         (0 \<le> limit_of lopts \<longrightarrow>
            list rt db now (ns r) lopts = Inr \<lparr>keys = [], cursor = None\<rparr>) \<and>
         fst (get rt (snd (cleanupAllExpired db now)) now (ns r) (key r) gopts) = Inr None \<and>
         (\<forall>page. list rt (snd (cleanupAllExpired db now)) now (ns r) lopts = Inr page \<longrightarrow>
            key r \<notin> set (keys page) \<and>
            (ListResult.cursor page = None \<or>
             (keys page \<noteq> [] \<and> last (keys page) \<noteq> key r \<and>
              ListResult.cursor page = Some (toBase64 rt (last (keys page))))))"
proof -
  let ?n = "ns r" and ?k = "key r"
  let ?db' = "snd (cleanupAllExpired db now)"
  have k: "at_key ?n ?k r" by (simp add: at_key_def)
  have sel: "select_row db ?n ?k = Some r"
    using assms(1,2) k by (rule select_row_member)
  have g: "fst (get rt db now ?n ?k gopts) = Inr None"
    by (simp add: get_expired[OF assms(1) sel assms(3)])
  have any: "any_expired db now ?n"
    using assms(2,3) by (auto simp: any_expired_def)
  have rows: "\<And>lim. list_query db now ?n (prefix lopts) (startKey_of rt lopts) lim = []"
    using any by (simp add: list_query_eq)
  have l1: "\<forall>page. list rt db now ?n lopts = Inr page \<longrightarrow>
            keys page = [] \<and> ListResult.cursor page = None"
  proof (intro allI impI)
    fix page assume p: "list rt db now ?n lopts = Inr page"
    from list_result_shape[OF p] have "keys page = []" by (simp add: rows)
    with list_result_shape[OF p] show "keys page = [] \<and> ListResult.cursor page = None" by auto
  qed
  have l2: "0 \<le> limit_of lopts \<longrightarrow> list rt db now ?n lopts = Inr \<lparr>keys = [], cursor = None\<rparr>"
    using any by (auto intro: list_empty_when_any_expired)
  have db': "?db' = filter (\<lambda>x. \<not> expired now x) db"
    by (simp add: cleanupAllExpired_def)
  have sel': "select_row ?db' ?n ?k = None"
    unfolding db' by (simp add: select_row_filter[OF assms(1)] sel assms(3))
  have g': "fst (get rt ?db' now ?n ?k gopts) = Inr None"
    by (simp add: get_absent[OF sel'])
  have nokey: "?k \<notin> key ` {x \<in> set ?db'. ns x = ?n}"
    using sel' by (auto simp: select_row_None_iff at_key_def)
  have l3: "\<forall>page. list rt ?db' now ?n lopts = Inr page \<longrightarrow>
            ?k \<notin> set (keys page) \<and>
            (ListResult.cursor page = None \<or>
             (keys page \<noteq> [] \<and> last (keys page) \<noteq> ?k \<and>
              ListResult.cursor page = Some (toBase64 rt (last (keys page)))))"
  proof (intro allI impI)
    fix page assume p: "list rt ?db' now ?n lopts = Inr page"
    from list_result_shape[OF p] list_query_subset[of ?db' now ?n]
    have sub: "set (keys page) \<subseteq> key ` {x \<in> set ?db'. ns x = ?n}"
      and cur: "ListResult.cursor page = None \<or>
          (keys page \<noteq> [] \<and> ListResult.cursor page = Some (toBase64 rt (last (keys page))))"
      by blast+
    from sub nokey have notin: "?k \<notin> set (keys page)" by blast
    have "keys page \<noteq> [] \<Longrightarrow> last (keys page) \<noteq> ?k"
    proof
      assume ne: "keys page \<noteq> []" and eq: "last (keys page) = ?k"
      from last_in_set[OF ne] eq notin show False by simp
    qed
    with notin cur show "?k \<notin> set (keys page) \<and>
            (ListResult.cursor page = None \<or>
             (keys page \<noteq> [] \<and> last (keys page) \<noteq> ?k \<and>
              ListResult.cursor page = Some (toBase64 rt (last (keys page)))))"
      by blast
  qed
  from g l1 l2 g' l3 show ?thesis by blast
qed

theorem expired_entry_excluded_witness:
  "pk_unique [entry ''a'' 1 None, entry ''z'' 1 (Some 1000)] \<and>
   entry ''z'' 1 (Some 1000) \<in> set [entry ''a'' 1 None, entry ''z'' 1 (Some 1000)] \<and>
   expired 2000 (entry ''z'' 1 (Some 1000)) \<and>
   fst (get node [entry ''a'' 1 None, entry ''z'' 1 (Some 1000)] 2000 ''builds'' ''z'' no_get_options)
     = Inr None \<and>
   0 \<le> limit_of no_list_options \<and>
   list node [entry ''a'' 1 None, entry ''z'' 1 (Some 1000)] 2000 ''builds'' no_list_options =
     Inr \<lparr>keys = [], cursor = None\<rparr> \<and>
   snd (cleanupAllExpired [entry ''a'' 1 None, entry ''z'' 1 (Some 1000)] 2000) = [entry ''a'' 1 None] \<and>
   fst (get node [entry ''a'' 1 None] 2000 ''builds'' ''z'' no_get_options) = Inr None \<and>
   list node [entry ''a'' 1 None] 2000 ''builds'' no_list_options =
     Inr \<lparr>keys = [''a''], cursor = None\<rparr> \<and>
   ''z'' \<notin> set [''a'']"
proof -
  let ?a = "entry ''a'' 1 None" and ?z = "entry ''z'' 1 (Some 1000)"
  have h: "pk_unique [?a, ?z]" "?z \<in> set [?a, ?z]" "expired 2000 ?z"
    by (simp_all add: pk_unique_def expired_def entry_def)
  have k: "ns ?z = ''builds''" "key ?z = ''z''" by (simp_all add: entry_def)
  have lim: "0 \<le> limit_of no_list_options"
    by (simp add: limit_of_def no_list_options_def)
  have cl: "snd (cleanupAllExpired [?a, ?z] 2000) = [?a]"
    by (simp add: cleanupAllExpired_def expired_def entry_def)
  note t = expired_entry_excluded[OF h, of node no_get_options no_list_options]
  have g: "fst (get node [?a, ?z] 2000 ''builds'' ''z'' no_get_options) = Inr None"
    using t by (simp add: k)
  have l: "list node [?a, ?z] 2000 ''builds'' no_list_options = Inr \<lparr>keys = [], cursor = None\<rparr>"
    using t lim by (simp add: k)
  have g': "fst (get node [?a] 2000 ''builds'' ''z'' no_get_options) = Inr None"
    using t by (simp add: k cl)
  have l': "list node [?a] 2000 ''builds'' no_list_options = Inr \<lparr>keys = [''a''], cursor = None\<rparr>"
    by code_simp
  from h lim cl g l g' l' show ?thesis by simp
qed

subsection \<open>Paging through a namespace\<close>

lemma matching_keys_after:
  "matching_keys db n pre sk = filter (\<lambda>k. sk = [] \<or> sk < k) (matching_keys db n pre [])"
proof -
  have "filter (matches_filters n pre sk) db =
        filter ((\<lambda>k. sk = [] \<or> sk < k) \<circ> key) (filter (matches_filters n pre []) db)"
    by (auto simp: matches_filters_def intro: filter_cong)
  then show ?thesis
    unfolding matching_keys_def by (simp add: filter_sort filter_map)
qed

lemma sorted_distinct_filter_gt:
  "sorted xs \<Longrightarrow> distinct xs \<Longrightarrow> i < length xs \<Longrightarrow>
   filter (\<lambda>k. xs ! i < k) xs = drop (Suc i) (xs :: ('a::linorder) list)"
proof (induction xs arbitrary: i)
  case Nil
  then show ?case by simp
next
  case (Cons x xs)
  show ?case
  proof (cases i)
    case 0
    have "\<forall>y\<in>set xs. x < y" using Cons.prems by (auto simp: less_le)
    then show ?thesis using 0 by (simp add: filter_all)
  next
    case (Suc j)
    with Cons.prems have j: "j < length xs" by simp
    have "x \<le> xs ! j" using Cons.prems j by auto
    then have "\<not> xs ! j < x" by simp
    with Suc Cons.IH[of j] Cons.prems j show ?thesis by simp
  qed
qed


lemma last_take_nth:
  assumes "1 \<le> m" and "m \<le> length xs"
  shows "last (take m xs) = xs ! (m - 1)"
proof -
  have ne: "take m xs \<noteq> []" using assms by auto
  have "last (take m xs) = take m xs ! (length (take m xs) - 1)"
    using ne by (rule last_conv_nth)
  also have "length (take m xs) = m" using assms(2) by simp
  also have "take m xs ! (m - 1) = xs ! (m - 1)" using assms(1) by simp
  finally show ?thesis .
qed

lemma list_page_no_expired:
  assumes "\<not> any_expired db now n" and "1 \<le> limit_of options"
  shows "list rt db now n options =
           Inr \<lparr>keys = take (nat (limit_of options))
                         (matching_keys db n (prefix options) (startKey_of rt options)),
                cursor =
                  (if nat (limit_of options) <
                        length (matching_keys db n (prefix options) (startKey_of rt options))
                   then Some (toBase64 rt
                          (last (take (nat (limit_of options))
                             (matching_keys db n (prefix options) (startKey_of rt options)))))
                   else None)\<rparr>"
proof -
  let ?mk = "matching_keys db n (prefix options) (startKey_of rt options)"
  let ?lim = "limit_of options"
  have rows: "list_query db now n (prefix options) (startKey_of rt options) ?lim =
              take (nat (?lim + 1)) ?mk"
    using assms by (simp add: list_query_eq sql_limit_def)
  have tk: "take (nat ?lim) (take (nat (?lim + 1)) ?mk) = take (nat ?lim) ?mk"
    using assms(2) by (simp add: min_def)
  have len: "(?lim < int (length (take (nat (?lim + 1)) ?mk))) = (nat ?lim < length ?mk)"
    using assms(2) by auto
  show ?thesis
    unfolding list_page[OF assms(2)] rows tk len by simp
qed

lemma paginate_from:
  assumes pk: "pk_unique db"
    and live: "\<not> any_expired db now n"
    and lim: "1 \<le> limit_of \<lparr>limit = lim, cursor = None, prefix = pre\<rparr>"
    and codec: "\<forall>k\<in>set (matching_keys db n pre []).
                  k \<noteq> [] \<and> toBase64 rt k \<noteq> [] \<and> fromBase64 rt (toBase64 rt k) = k"
  shows "startKey_of rt \<lparr>limit = lim, cursor = c, prefix = pre\<rparr> = sk \<Longrightarrow>
         sk = [] \<or> sk \<in> set (matching_keys db n pre []) \<Longrightarrow>
         length (matching_keys db n pre sk)
           < fuel * nat (limit_of \<lparr>limit = lim, cursor = None, prefix = pre\<rparr>) \<Longrightarrow>
         paginate rt db now n lim pre fuel c = Some (Inr (matching_keys db n pre sk))"
proof (induction fuel arbitrary: c sk)
  case 0
  then show ?case by simp
next
  case (Suc fuel)
  let ?L = "nat (limit_of \<lparr>limit = lim, cursor = None, prefix = pre\<rparr>)"
  let ?o = "\<lparr>limit = lim, cursor = c, prefix = pre\<rparr>"
  let ?all = "matching_keys db n pre []"
  let ?rest = "matching_keys db n pre sk"
  have lo: "limit_of ?o = limit_of \<lparr>limit = lim, cursor = None, prefix = pre\<rparr>"
    by (simp add: limit_of_def)
  have L1: "1 \<le> ?L" using lim by simp
  have page: "list rt db now n ?o =
      Inr \<lparr>keys = take ?L ?rest,
           cursor = (if ?L < length ?rest then Some (toBase64 rt (last (take ?L ?rest))) else None)\<rparr>"
    using list_page_no_expired[OF live, of ?o rt] lim Suc.prems(1) by (simp add: lo)
  show ?case
  proof (cases "?L < length ?rest")
    case False
    then show ?thesis by (simp add: page)
  next
    case True
    define k where "k = last (take ?L ?rest)"
    have k_nth: "k = ?rest ! (?L - 1)"
      unfolding k_def using True L1 by (intro last_take_nth) simp_all
    have idx: "?L - 1 < length ?rest" using True by simp
    then have "k \<in> set ?rest" unfolding k_nth by (rule nth_mem)
    then have k_all: "k \<in> set ?all" and k_after: "sk = [] \<or> sk < k"
      by (auto simp: matching_keys_after[of db n pre sk])
    from codec k_all have ck: "k \<noteq> []" "toBase64 rt k \<noteq> []" "fromBase64 rt (toBase64 rt k) = k"
      by blast+
    have next_sk: "startKey_of rt \<lparr>limit = lim, cursor = Some (toBase64 rt k), prefix = pre\<rparr> = k"
      using ck by (simp add: startKey_of_def)
    have sd: "sorted ?rest" "distinct ?rest"
      using matching_keys_sorted matching_keys_distinct[OF pk] by auto
    have "matching_keys db n pre k = filter (\<lambda>x. k < x) ?all"
      using ck(1) by (subst matching_keys_after) simp
    also have "\<dots> = filter (\<lambda>x. k < x) (filter (\<lambda>x. sk = [] \<or> sk < x) ?all)"
      unfolding filter_filter
      by (rule filter_cong[OF refl]) (use k_after in auto)
    also have "\<dots> = filter (\<lambda>x. k < x) ?rest"
      by (simp only: matching_keys_after[of db n pre sk])
    also have "\<dots> = drop (Suc (?L - 1)) ?rest"
      unfolding k_nth by (rule sorted_distinct_filter_gt[OF sd idx])
    also have "\<dots> = drop ?L ?rest" using L1 by simp
    finally have rest_k: "matching_keys db n pre k = drop ?L ?rest" .
    have "length (drop ?L ?rest) < fuel * ?L"
      using Suc.prems(3) True by simp
    then have "paginate rt db now n lim pre fuel (Some (toBase64 rt k)) =
               Some (Inr (matching_keys db n pre k))"
      using Suc.IH[OF next_sk] k_all by (simp add: rest_k)
    then show ?thesis
      using True by (simp add: page rest_k k_def[symmetric])
  qed
qed

text \<open>
  Where the table obeys its primary key, no row of the namespace is expired, the
  page limit is at least 1 and every matching key is non-empty and survives the
  cursor encoding, the loop yields every matching key exactly once, in ascending
  order, given fuel for all pages.
\<close>

theorem pagination_complete:
  assumes "pk_unique db"
    and "\<not> any_expired db now n"
    and "1 \<le> limit_of \<lparr>limit = lim, cursor = None, prefix = pre\<rparr>"
    and "\<forall>k\<in>set (matching_keys db n pre []).
           k \<noteq> [] \<and> toBase64 rt k \<noteq> [] \<and> fromBase64 rt (toBase64 rt k) = k"
    and "length (matching_keys db n pre [])
           < fuel * nat (limit_of \<lparr>limit = lim, cursor = None, prefix = pre\<rparr>)"
  shows "paginate rt db now n lim pre fuel None = Some (Inr (matching_keys db n pre [])) \<and>
         sorted (matching_keys db n pre []) \<and> distinct (matching_keys db n pre []) \<and>
         set (matching_keys db n pre []) = key ` {r \<in> set db. matches_filters n pre [] r}"
proof -
  have "startKey_of rt \<lparr>limit = lim, cursor = None, prefix = pre\<rparr> = []"
    by (simp add: startKey_of_def)
  from paginate_from[OF assms(1-4) this _ assms(5)]
  show ?thesis
    using matching_keys_sorted matching_keys_distinct[OF assms(1)]
    by (simp add: matching_keys_set)
qed

lemma pagination_complete_example:
  "paginate node [entry ''b'' 1 None, entry ''a'' 1 None, entry ''c'' 1 None] 0 ''builds''
     (Some 1) None 4 None = Some (Inr [''a'', ''b'', ''c''])"
proof -
  have mk: "matching_keys [entry ''b'' 1 None, entry ''a'' 1 None, entry ''c'' 1 None] ''builds'' None []
      = [''a'', ''b'', ''c'']"
    by code_simp
  have h1: "pk_unique [entry ''b'' 1 None, entry ''a'' 1 None, entry ''c'' 1 None]"
    by (simp add: pk_unique_def entry_def)
  have h2: "\<not> any_expired [entry ''b'' 1 None, entry ''a'' 1 None, entry ''c'' 1 None] 0 ''builds''"
    by (simp add: any_expired_def expired_def entry_def)
  have h3: "1 \<le> limit_of \<lparr>limit = Some 1, cursor = None, prefix = None\<rparr>"
    by (simp add: limit_of_def)
  have c: "fromBase64 node (toBase64 node ''a'') = ''a''" "toBase64 node ''a'' \<noteq> []"
    "fromBase64 node (toBase64 node ''b'') = ''b''" "toBase64 node ''b'' \<noteq> []"
    "fromBase64 node (toBase64 node ''c'') = ''c''" "toBase64 node ''c'' \<noteq> []"
    by code_simp+
  have h4: "\<forall>k\<in>set (matching_keys [entry ''b'' 1 None, entry ''a'' 1 None, entry ''c'' 1 None]
                        ''builds'' None []).
           k \<noteq> [] \<and> toBase64 node k \<noteq> [] \<and> fromBase64 node (toBase64 node k) = k"
    unfolding mk using c by simp
  have h5: "length (matching_keys [entry ''b'' 1 None, entry ''a'' 1 None, entry ''c'' 1 None]
                        ''builds'' None [])
           < 4 * nat (limit_of \<lparr>limit = Some 1, cursor = None, prefix = None\<rparr>)"
    unfolding mk by (simp add: limit_of_def)
  from pagination_complete[OF h1 h2 h3 h4 h5] show ?thesis
    by (simp add: mk)
qed

text \<open>The keys have to be non-empty: the cursor of the empty key is the empty string,
  which the next call reads as no cursor, so the loop starts over and never ends
  (here it is out of fuel after ten calls).\<close>

lemma paginate_restarts_after_empty_key:
  "paginate node [entry [] 1 None, entry ''a'' 1 None] 0 ''builds'' (Some 1) None 10 None = None"
  by code_simp

text \<open>
  C4. The claim: paging through a namespace with a fixed limit yields each live
  key once, in ascending order. With the live keys \<open>a\<close> and \<open>b\<close> and the expired
  key \<open>z\<close> stored, paging with limit 1 ends after the first call with no key;
  once the expired row has been deleted, it yields \<open>a\<close> and \<open>b\<close>.
\<close>

theorem paginate_blocked_by_expired_row:
  "paginate node [entry ''a'' 1 None, entry ''b'' 1 None, entry ''z'' 1 (Some 1000)] 2000 ''builds''
     (Some 1) None 10 None = Some (Inr []) \<and>
   paginate node (snd (cleanupAllExpired [entry ''a'' 1 None, entry ''b'' 1 None,
                                           entry ''z'' 1 (Some 1000)] 2000)) 2000 ''builds''
     (Some 1) None 10 None = Some (Inr [''a'', ''b''])"
  by code_simp

subsection \<open>The prefix filter\<close>

text \<open>For a prefix without \<open>%\<close> and \<open>_\<close>, and text without zero bytes, the pattern
  matches the keys that start with the prefix once ASCII letters are read without
  regard to case.\<close>

lemma like_match_percent: "like_match ''%'' s"
proof (induction "length s" arbitrary: s rule: less_induct)
  case less
  show ?case
  proof (cases s)
    case Nil
    then show ?thesis by simp
  next
    case (Cons c cs)
    have "length (utf8_rest c cs) \<le> length cs"
      by (simp add: utf8_rest_def length_dropWhile_le)
    then have "length (utf8_rest c cs) < length s"
      using Cons by simp
    from less[OF this] Cons show ?thesis by simp
  qed
qed

lemma like_match_plain_prefix:
  "CHR ''%'' \<notin> set p \<Longrightarrow> CHR ''_'' \<notin> set p \<Longrightarrow>
   like_match (p @ ''%'') k = starts_with (map ascii_lower p) (map ascii_lower k)"
proof (induction p arbitrary: k)
  case Nil
  then show ?case by (simp add: like_match_percent starts_with_def)
next
  case (Cons c p)
  show ?case
  proof (cases k)
    case Nil
    with Cons.prems show ?thesis by (auto simp: starts_with_def)
  next
    case (Cons d k')
    with Cons.prems Cons.IH[of k'] show ?thesis
      by (auto simp: starts_with_def)
  qed
qed

lemma c_string_id: "CHR 0x00 \<notin> set s \<Longrightarrow> c_string s = s"
  by (auto simp: c_string_def takeWhile_eq_all_conv)

lemma sql_like_plain_prefix:
  assumes "CHR ''%'' \<notin> set p" and "CHR ''_'' \<notin> set p"
    and "CHR 0x00 \<notin> set p" and "CHR 0x00 \<notin> set k"
  shows "sql_like (p @ ''%'') k = starts_with (map ascii_lower p) (map ascii_lower k)"
proof -
  have "c_string (p @ ''%'') = p @ ''%''" using assms(3) by (intro c_string_id) simp
  then show ?thesis
    using assms by (simp add: sql_like_def c_string_id like_match_plain_prefix)
qed

text \<open>\<open>_\<close> stands for one character, not one byte, and a zero byte ends the pattern
  and the key.\<close>

lemma sql_like_examples:
  "sql_like ''_%'' [CHR 0xC3, CHR 0xA9] \<and> \<not> sql_like ''__%'' [CHR 0xC3, CHR 0xA9] \<and>
   sql_like [CHR ''a'', CHR 0x00, CHR ''b'', CHR ''%''] ''a'' \<and>
   sql_like ''a'' [CHR ''a'', CHR 0x00, CHR ''b'']"
  by code_simp

text \<open>
  C6. The claim: \<open>list\<close> with a prefix returns exactly the live keys that start with
  it, for any prefix string. The prefix is used as a \<open>LIKE\<close> pattern: with prefix
  \<open>a_\<close> the key \<open>abc\<close> is returned, and with prefix \<open>A\<close> as well, though it starts
  with neither.
\<close>

theorem list_prefix_is_like_pattern:
  "list node [entry ''abc'' 1 None, entry ''b'' 1 None] 0 ''builds''
     (no_list_options\<lparr>prefix := Some ''a_''\<rparr>) = Inr \<lparr>keys = [''abc''], cursor = None\<rparr> \<and>
   \<not> starts_with ''a_'' ''abc'' \<and>
   list node [entry ''abc'' 1 None, entry ''b'' 1 None] 0 ''builds''
     (no_list_options\<lparr>prefix := Some ''A''\<rparr>) = Inr \<lparr>keys = [''abc''], cursor = None\<rparr> \<and>
   \<not> starts_with ''A'' ''abc''"
  by code_simp

end
